theory Spec2Isabelle
  imports Main
begin

section \<open>JavaScript values, errors and promises\<close>

text \<open>
  The datasource is untyped TypeScript (\<open>any\<close> everywhere), so the values it compares and
  tests for truthiness are modelled by a small datatype of JavaScript primitives.
  \<open>===\<close> on primitives is equality of this datatype (there is no NaN here, and no object).
\<close>

datatype jsval = Undefined | Null | Bool bool | Num int | Str string

fun truthy :: "jsval \<Rightarrow> bool" where
  "truthy Undefined = False"
| "truthy Null = False"
| "truthy (Bool b) = b"
| "truthy (Num n) = (n \<noteq> 0)"
| "truthy (Str s) = (s \<noteq> [])"

text \<open>\<open>a || b\<close>\<close>

definition js_or :: "jsval \<Rightarrow> jsval \<Rightarrow> jsval" where
  "js_or a b = (if truthy a then a else b)"

text \<open>
  \<open>TypeError\<close> is what the runtime throws when a property of \<open>undefined\<close> is read or
  called; \<open>ClientError\<close> stands for whatever a per-service client throws or rejects with.
\<close>

datatype error = TypeError | ClientError string

text \<open>
  A promise is modelled by its eventual outcome. A settled promise carries the logical time
  (a tick counted from the dispatch call, \<open>0\<close> = already settled) at which it settles, so
  that completion order is part of the model; \<open>Pending\<close> never settles.
\<close>

datatype 'a promise = Fulfilled nat 'a | Rejected nat error | Pending

text \<open>\<open>Promise.resolve(v)\<close>\<close>

definition promise_resolve :: "'a \<Rightarrow> 'a promise" where
  "promise_resolve v = Fulfilled 0 v"

text \<open>
  \<open>Promise.all\<close> rejects as soon as one element rejects, with that element's reason: the
  rejection that comes first in time wins, and among rejections of the same tick the one
  subscribed first (lowest index). Otherwise it fulfils, once every element has, with the
  values in index order; it stays pending when an element never settles.
\<close>

fun first_rejected :: "'a promise list \<Rightarrow> (nat \<times> error) option" where
  "first_rejected [] = None"
| "first_rejected (Rejected t e # ps) =
     (case first_rejected ps of
        None \<Rightarrow> Some (t, e)
      | Some (t', e') \<Rightarrow> if t' < t then Some (t', e') else Some (t, e))"
| "first_rejected (_ # ps) = first_rejected ps"

fun fulfilled_values :: "'a promise list \<Rightarrow> (nat \<times> 'a list) option" where
  "fulfilled_values [] = Some (0, [])"
| "fulfilled_values (Fulfilled t v # ps) =
     (case fulfilled_values ps of
        None \<Rightarrow> None
      | Some (t', vs) \<Rightarrow> Some (max t t', v # vs))"
| "fulfilled_values (_ # ps) = None"

definition promise_all :: "'a promise list \<Rightarrow> 'a list promise" where
  "promise_all ps =
     (case first_rejected ps of
        Some (t, e) \<Rightarrow> Rejected t e
      | None \<Rightarrow> (case fulfilled_values ps of
                   Some (t, vs) \<Rightarrow> Fulfilled t vs
                 | None \<Rightarrow> Pending))"

text \<open>\<open>p.then(f)\<close>: a callback that throws (\<open>Inl\<close>) rejects the derived promise.\<close>

definition promise_then :: "'a promise \<Rightarrow> ('a \<Rightarrow> error + 'b) \<Rightarrow> 'b promise" where
  "promise_then p f =
     (case p of
        Fulfilled t v \<Rightarrow> (case f v of Inl e \<Rightarrow> Rejected t e | Inr r \<Rightarrow> Fulfilled t r)
      | Rejected t e \<Rightarrow> Rejected t e
      | Pending \<Rightarrow> Pending)"

text \<open>
  What calling a client method gives back: it throws, or returns a falsy value
  (\<open>undefined\<close>), or returns a promise.
\<close>

datatype 'a ret = Throws error | Falsy | Returns "'a promise"

text \<open>
  \<open>_.forEach\<close> with a callback that never returns \<open>false\<close>: every element is visited in
  order, unless the callback throws, which ends the loop and the enclosing method.
\<close>

fun forEach :: "'a list \<Rightarrow> ('a \<Rightarrow> 's \<Rightarrow> 's \<times> error option) \<Rightarrow> 's \<Rightarrow> 's \<times> error option" where
  "forEach [] f s = (s, None)"
| "forEach (x # xs) f s =
     (case f x s of
        (s', Some e) \<Rightarrow> (s', Some e)
      | (s', None) \<Rightarrow> forEach xs f s')"

section \<open>Requests on the heap\<close>

text \<open>
  The request (\<open>options\<close>) is an object that holds a reference to its \<open>targets\<close> array,
  whose elements are references to target objects. A target carries its \<open>service\<close> field
  (\<open>None\<close> when the property is absent) and the rest of its fields as an opaque body; the
  request carries its other fields (range, interval, ...) as an opaque value.
\<close>

type_synonym addr = nat

datatype 'q target = Target (target_service: "jsval option") (target_body: 'q)

datatype ('q, 'p) obj =
    OptionsObj addr 'p
  | ArrayObj "addr list"
  | TargetObj "'q target"

type_synonym ('q, 'p) heap = "('q, 'p) obj list"

text \<open>What a client can read from the request object it is handed.\<close>

record ('q, 'p) request =
  targets :: "'q target list"
  rest :: 'p

section \<open>Registry, clients and the datasource instance\<close>

text \<open>An element of \<open>SERVICES\<close>; the code reads \<open>service.service\<close> and \<open>service.namespace\<close>.\<close>

record service_descriptor =
  service :: string
  namespace :: string

text \<open>The connectivity status record of a client, and the one \<open>testDatasource\<close> returns.\<close>

record test_result =
  status :: string
  message :: string

record test_response = test_result +
  title :: string

record 's query_response =
  data :: "'s list"

text \<open>
  What a client's query promise resolves to: an array of series, or some value that is not
  an array (\<open>_.flatten\<close> treats the two differently).
\<close>

datatype 's qres = Arr "'s list" | Single 's

record ('q, 'p, 's, 'm) client =
  c_query :: "('q, 'p) request \<Rightarrow> 's qres ret"
  c_testDatasource :: "test_result ret"
  c_metricFindQuery :: "(string \<times> jsval) list \<Rightarrow> 'm list ret"

text \<open>
  The datasource instance and what its module imports. \<open>SERVICES\<close>,
  \<open>GetServiceFromNamespace\<close> and \<open>ParseMetricQuery\<close> come from modules that are not part
  of the source at hand and \<open>upperCase\<close> is lodash's, so they are parameters.
  \<open>jsonData\<close> is \<open>this.instanceSettings.jsonData\<close> (an object, as an association list);
  \<open>clients\<close> is the lookup \<open>this[key]\<close> of the clients the constructor stored.
\<close>

record ('q, 'p, 's, 'm) datasource =
  SERVICES :: "service_descriptor list"
  GetServiceFromNamespace :: "jsval \<Rightarrow> jsval"
  ParseMetricQuery :: "string \<Rightarrow> (string \<times> jsval) list"
  upperCase :: "jsval \<Rightarrow> string"
  jsonData :: "(string \<times> jsval) list"
  clients :: "string \<Rightarrow> ('q, 'p, 's, 'm) client option"

text \<open>The property read \<open>obj[key]\<close> on an object given as an association list.\<close>

definition js_get :: "(string \<times> jsval) list \<Rightarrow> string \<Rightarrow> jsval" where
  "js_get obj key = (case map_of obj key of None \<Rightarrow> Undefined | Some v \<Rightarrow> v)"

text \<open>The key of a client: \<open>_.upperCase(service)\<close> followed by \<open>Datasource\<close>.\<close>

definition client_key :: "('q, 'p, 's, 'm) datasource \<Rightarrow> jsval \<Rightarrow> string" where
  "client_key this svc = upperCase this svc @ ''Datasource''"

definition client_of ::
  "('q, 'p, 's, 'm) datasource \<Rightarrow> jsval \<Rightarrow> ('q, 'p, 's, 'm) client option" where
  "client_of this svc = clients this (client_key this svc)"

section \<open>getNamespaces and getSelectedServices\<close>

fun getNamespaces_loop ::
  "('q, 'p, 's, 'm) datasource \<Rightarrow> service_descriptor list \<Rightarrow> string list \<Rightarrow> string list" where
  "getNamespaces_loop this [] namespaces = namespaces"
| "getNamespaces_loop this (sd # sds) namespaces =
     getNamespaces_loop this sds
       (if js_get (jsonData this) (service sd) = Bool True
        then namespaces @ [namespace sd] else namespaces)"

definition getNamespaces :: "('q, 'p, 's, 'm) datasource \<Rightarrow> string list" where
  "getNamespaces this = getNamespaces_loop this (SERVICES this) []"

definition getSelectedServices :: "('q, 'p, 's, 'm) datasource \<Rightarrow> jsval list" where
  "getSelectedServices this =
     map (\<lambda>ns. GetServiceFromNamespace this (Str ns)) (getNamespaces this)"

section \<open>testDatasource\<close>

text \<open>Decimal rendering of the index in the template string.\<close>

function string_of_nat :: "nat \<Rightarrow> string" where
  "string_of_nat n =
     (if n < 10 then [''0123456789'' ! n]
      else string_of_nat (n div 10) @ [''0123456789'' ! (n mod 10)])"
  by pat_completeness auto
termination
  by (relation "measure (\<lambda>n. n)") auto

declare string_of_nat.simps [simp del]

text \<open>\<open>_.upperFirst\<close>, on ASCII letters.\<close>

definition upper_char :: "char \<Rightarrow> char" where
  "upper_char c =
     (case map_of (zip ''abcdefghijklmnopqrstuvwxyz'' ''ABCDEFGHIJKLMNOPQRSTUVWXYZ'') c of
        None \<Rightarrow> c
      | Some u \<Rightarrow> u)"

fun upperFirst :: "string \<Rightarrow> string" where
  "upperFirst [] = []"
| "upperFirst (c # cs) = upper_char c # cs"

text \<open>
  The \<open>for\<close> loop of the \<open>then\<close> callback. An element of \<open>results\<close> is \<open>None\<close> when the
  client returned \<open>undefined\<close> instead of a promise; reading its \<open>status\<close> throws.
\<close>

function test_loop ::
  "test_result option list \<Rightarrow> nat \<Rightarrow> string \<Rightarrow> string \<Rightarrow> error + (string \<times> string)" where
  "test_loop results i status' message' =
     (if i < length results then
        (case results ! i of
           None \<Rightarrow> Inl TypeError
         | Some r \<Rightarrow>
             test_loop results (i + 1)
               (if status r \<noteq> ''success'' then status r else status')
               (message' @ string_of_nat (i + 1) @ ''. '' @ message r @ '' \<newline>''))
      else Inr (status', message'))"
  by pat_completeness auto
termination
  by (relation "measure (\<lambda>(results, i, s, m). length results - i)") auto

declare test_loop.simps [simp del]

definition test_then :: "test_result option list \<Rightarrow> error + test_response" where
  "test_then results =
     (case test_loop results 0 ''success'' '''' of
        Inl e \<Rightarrow> Inl e
      | Inr (status', message') \<Rightarrow>
          Inr \<lparr>status = status', message = message', title = upperFirst status'\<rparr>)"

text \<open>
  The state of the \<open>forEach\<close> of \<open>testDatasource\<close>: the \<open>promises\<close> array and, as a ghost
  field, the log of the clients whose operation was invoked.
\<close>

record ('a, 'c) dispatch =
  promises :: "'a promise list"
  calls :: "'c list"

text \<open>
  What \<open>Promise.all\<close> makes of an element of \<open>promises\<close>: a value that is not a promise
  (\<open>undefined\<close>, when the client returned nothing) counts as already resolved. A call that
  throws pushes nothing, so the last equation is never used; it only makes the function
  total.
\<close>

fun as_promise :: "'a ret \<Rightarrow> 'a option promise" where
  "as_promise (Returns (Fulfilled t v)) = Fulfilled t (Some v)"
| "as_promise (Returns (Rejected t e)) = Rejected t e"
| "as_promise (Returns Pending) = Pending"
| "as_promise Falsy = Fulfilled 0 None"
| "as_promise (Throws e) = Pending"

definition test_service ::
  "('q, 'p, 's, 'm) datasource \<Rightarrow> jsval \<Rightarrow> (test_result option, string) dispatch
     \<Rightarrow> (test_result option, string) dispatch \<times> error option" where
  "test_service this svc st =
     (case client_of this svc of
        None \<Rightarrow> (st, Some TypeError)
      | Some c \<Rightarrow>
          (case c_testDatasource c of
             Throws e \<Rightarrow> (st\<lparr>calls := calls st @ [client_key this svc]\<rparr>, Some e)
           | r \<Rightarrow> (st\<lparr>promises := promises st @ [as_promise r],
                       calls := calls st @ [client_key this svc]\<rparr>, None)))"

definition nothing_configured :: test_response where
  "nothing_configured =
     \<lparr>status = ''error'',
      message = ''Nothing configured. At least one of the API's services must be configured.'',
      title = ''Error''\<rparr>"

text \<open>
  The result is the log of invoked clients together with what the method does: it throws
  (\<open>Inl\<close>) or returns a promise.
\<close>

definition testDatasource ::
  "('q, 'p, 's, 'm) datasource \<Rightarrow> string list \<times> (error + test_response promise)" where
  "testDatasource this =
     (case forEach (getSelectedServices this) (test_service this) \<lparr>promises = [], calls = []\<rparr> of
        (st, Some e) \<Rightarrow> (calls st, Inl e)
      | (st, None) \<Rightarrow>
          (calls st,
           Inr (if length (promises st) = 0 then promise_resolve nothing_configured
                else promise_then (promise_all (promises st)) test_then)))"

section \<open>metricFindQuery\<close>

definition metricFindQuery ::
  "('q, 'p, 's, 'm) datasource \<Rightarrow> string \<Rightarrow> string list \<times> (error + 'm list promise)" where
  "metricFindQuery this query' =
     (let queries = ParseMetricQuery this query';
          svc = GetServiceFromNamespace this (js_or (js_get queries ''namespace'') (Str ''''))
      in if queries = [] \<or> \<not> truthy (js_get queries ''namespace'')
            \<or> \<not> truthy (js_get queries ''action'') \<or> \<not> truthy svc
         then ([], Inr (promise_resolve []))
         else
           (case client_of this svc of
              None \<Rightarrow> ([], Inl TypeError)
            | Some c \<Rightarrow>
                ([client_key this svc],
                 (case c_metricFindQuery c queries of
                    Throws e \<Rightarrow> Inl e
                  | Falsy \<Rightarrow> Inr (promise_resolve [])
                  | Returns result \<Rightarrow> Inr result))))"

section \<open>query\<close>

text \<open>
  The heap is the list of the objects allocated so far; an address is an index into it.
  Reading an address that holds no object gives \<open>None\<close> (JavaScript has no dangling
  reference: a well-formed request never does).
\<close>

definition lookup :: "('q, 'p) heap \<Rightarrow> addr \<Rightarrow> ('q, 'p) obj option" where
  "lookup h a = (if a < length h then Some (h ! a) else None)"

definition alloc :: "('q, 'p) heap \<Rightarrow> ('q, 'p) obj \<Rightarrow> ('q, 'p) heap \<times> addr" where
  "alloc h v = (h @ [v], length h)"

definition target_at :: "('q, 'p) heap \<Rightarrow> addr \<Rightarrow> 'q target option" where
  "target_at h t = (case lookup h t of Some (TargetObj x) \<Rightarrow> Some x | _ \<Rightarrow> None)"

definition elements :: "('q, 'p) heap \<Rightarrow> addr \<Rightarrow> addr list" where
  "elements h ta = (case lookup h ta of Some (ArrayObj ts) \<Rightarrow> ts | _ \<Rightarrow> [])"

text \<open>
  \<open>_.cloneDeep\<close> on a request: the request object, its targets array and every target
  object in it are copied into new objects. As in lodash, an object met a second time is
  not copied again (\<open>memo\<close> maps the objects already copied to their copies). A value that
  is not an object of the expected kind is kept as it is, like a primitive.
\<close>

fun clone_elems ::
  "('q, 'p) heap \<Rightarrow> (addr \<times> addr) list \<Rightarrow> addr list \<Rightarrow> ('q, 'p) heap \<times> addr list" where
  "clone_elems h memo [] = (h, [])"
| "clone_elems h memo (t # ts) =
     (case map_of memo t of
        Some t' \<Rightarrow> (case clone_elems h memo ts of (h', ts') \<Rightarrow> (h', t' # ts'))
      | None \<Rightarrow>
          (case lookup h t of
             Some (TargetObj x) \<Rightarrow>
               (case alloc h (TargetObj x) of
                  (h1, t') \<Rightarrow>
                    (case clone_elems h1 ((t, t') # memo) ts of (h', ts') \<Rightarrow> (h', t' # ts')))
           | _ \<Rightarrow> (case clone_elems h memo ts of (h', ts') \<Rightarrow> (h', t # ts'))))"

definition cloneDeep :: "('q, 'p) heap \<Rightarrow> addr \<Rightarrow> ('q, 'p) heap \<times> addr" where
  "cloneDeep h a =
     (case lookup h a of
        Some (OptionsObj ta p) \<Rightarrow>
          (case lookup h ta of
             Some (ArrayObj ts) \<Rightarrow>
               (case clone_elems h [] ts of
                  (h1, ts') \<Rightarrow>
                    (case alloc h1 (ArrayObj ts') of
                       (h2, ta') \<Rightarrow> alloc h2 (OptionsObj ta' p)))
           | _ \<Rightarrow> alloc h (OptionsObj ta p))
      | _ \<Rightarrow> (h, a))"

text \<open>
  \<open>_.filter(array, ['service', svc])\<close>: a new array of the elements whose \<open>service\<close>
  property is present and strictly equal to \<open>svc\<close>; the array given is not changed.
\<close>

definition matchesProperty :: "('q, 'p) heap \<Rightarrow> jsval \<Rightarrow> addr \<Rightarrow> bool" where
  "matchesProperty h svc t =
     (case target_at h t of Some x \<Rightarrow> target_service x = Some svc | None \<Rightarrow> False)"

definition lodash_filter :: "('q, 'p) heap \<Rightarrow> addr \<Rightarrow> jsval \<Rightarrow> ('q, 'p) heap \<times> addr" where
  "lodash_filter h ta svc = alloc h (ArrayObj (filter (matchesProperty h svc) (elements h ta)))"

text \<open>The targets a client reads through an array.\<close>

definition array_targets :: "('q, 'p) heap \<Rightarrow> addr \<Rightarrow> 'q target list" where
  "array_targets h ta = List.map_filter (target_at h) (elements h ta)"

text \<open>
  The log entry of one invocation of a client's \<open>query\<close>: the key of the client, the
  address of the request object it is handed and what it reads there.
\<close>

record ('q, 'p) invocation =
  callee :: string
  arg :: addr
  seen :: "('q, 'p) request"

record ('q, 'p, 's) query_state = "('s qres, ('q, 'p) invocation) dispatch" +
  heap :: "('q, 'p) heap"

text \<open>
  The body of the \<open>forEach\<close> of \<open>query\<close>. Writing \<open>optionsTemp.targets\<close> when
  \<open>optionsTemp\<close> is not an object throws, and so does calling \<open>query\<close> on a client
  that the instance does not hold.
\<close>

definition query_service ::
  "('q, 'p, 's, 'm) datasource \<Rightarrow> addr \<Rightarrow> jsval \<Rightarrow> ('q, 'p, 's) query_state
     \<Rightarrow> ('q, 'p, 's) query_state \<times> error option" where
  "query_service this options svc st =
     (case cloneDeep (heap st) options of
        (h1, optionsTemp) \<Rightarrow>
          (case lookup h1 optionsTemp of
             Some (OptionsObj ta p) \<Rightarrow>
               (case lodash_filter h1 ta svc of
                  (h2, filtered) \<Rightarrow>
                    (let h3 = h2[optionsTemp := OptionsObj filtered p] in
                     if length (elements h3 filtered) > 0 then
                       (case client_of this svc of
                          None \<Rightarrow> (st\<lparr>heap := h3\<rparr>, Some TypeError)
                        | Some c \<Rightarrow>
                            (let request = \<lparr>targets = array_targets h3 filtered, rest = p\<rparr>;
                                 st' = st\<lparr>heap := h3,
                                          calls := calls st @
                                            [\<lparr>callee = client_key this svc, arg = optionsTemp,
                                              seen = request\<rparr>]\<rparr>
                             in case c_query c request of
                                  Throws e \<Rightarrow> (st', Some e)
                                | Falsy \<Rightarrow> (st', None)
                                | Returns promiseTemp \<Rightarrow>
                                    (st'\<lparr>promises := promises st' @ [promiseTemp]\<rparr>, None)))
                     else (st\<lparr>heap := h3\<rparr>, None)))
           | _ \<Rightarrow> (st\<lparr>heap := h1\<rparr>, Some TypeError)))"

text \<open>\<open>_.flatten\<close>: one level; an element that is not an array is kept.\<close>

fun flatten :: "'s qres list \<Rightarrow> 's list" where
  "flatten [] = []"
| "flatten (Arr xs # rs) = xs @ flatten rs"
| "flatten (Single x # rs) = x # flatten rs"

text \<open>
  The end of \<open>query\<close>, once the loop is over: \<open>merged\<close> is the promise it returns. The
  result of \<open>query\<close> is the final state (the heap and the log of invocations) together
  with what the method does: it throws (\<open>Inl\<close>) or returns that promise.
\<close>

definition merged :: "'s qres promise list \<Rightarrow> 's query_response promise" where
  "merged ps =
     (if length ps = 0 then promise_resolve \<lparr>data = []\<rparr>
      else promise_then (promise_all ps) (\<lambda>results. Inr \<lparr>data = flatten results\<rparr>))"

definition query ::
  "('q, 'p, 's, 'm) datasource \<Rightarrow> ('q, 'p) heap \<Rightarrow> addr
     \<Rightarrow> ('q, 'p, 's) query_state \<times> (error + 's query_response promise)" where
  "query this h options =
     (case forEach (getSelectedServices this) (query_service this options)
             \<lparr>promises = [], calls = [], heap = h\<rparr> of
        (st, Some e) \<Rightarrow> (st, Inl e)
      | (st, None) \<Rightarrow> (st, Inr (merged (promises st))))"

section \<open>Well-formed requests\<close>

text \<open>
  A request at address \<open>a\<close> is well formed when \<open>a\<close> holds a request object whose
  \<open>targets\<close> is an array of target objects; \<open>read_request\<close> is what the caller's request
  reads as.
\<close>

definition wf_request :: "('q, 'p) heap \<Rightarrow> addr \<Rightarrow> bool" where
  "wf_request h a =
     (case lookup h a of
        Some (OptionsObj ta p) \<Rightarrow>
          (case lookup h ta of
             Some (ArrayObj ts) \<Rightarrow> list_all (\<lambda>t. target_at h t \<noteq> None) ts
           | _ \<Rightarrow> False)
      | _ \<Rightarrow> False)"

definition read_request :: "('q, 'p) heap \<Rightarrow> addr \<Rightarrow> ('q, 'p) request option" where
  "read_request h a =
     (case lookup h a of
        Some (OptionsObj ta p) \<Rightarrow> Some \<lparr>targets = array_targets h ta, rest = p\<rparr>
      | _ \<Rightarrow> None)"

text \<open>The addresses that can be reached from a request object.\<close>

definition reachable :: "('q, 'p) heap \<Rightarrow> addr \<Rightarrow> addr list" where
  "reachable h a =
     (case lookup h a of
        Some (OptionsObj ta p) \<Rightarrow> a # ta # elements h ta
      | _ \<Rightarrow> [a])"

text \<open>
  The fragment of a request for one service: the targets whose \<open>service\<close> field is that
  service, in their order, with the shared fields.
\<close>

definition fragment :: "('q, 'p) request \<Rightarrow> jsval \<Rightarrow> ('q, 'p) request" where
  "fragment req svc =
     \<lparr>targets = filter (\<lambda>x. target_service x = Some svc) (targets req), rest = rest req\<rparr>"

text \<open>
  One branch of the dispatch as the clients see it, without the heap: the state is the
  \<open>promises\<close> array and the log of the clients invoked with the request each has read.
\<close>

definition branch ::
  "('q, 'p, 's, 'm) datasource \<Rightarrow> ('q, 'p) request \<Rightarrow> jsval
     \<Rightarrow> ('s qres, string \<times> ('q, 'p) request) dispatch
     \<Rightarrow> ('s qres, string \<times> ('q, 'p) request) dispatch \<times> error option" where
  "branch this req svc st =
     (if targets (fragment req svc) = [] then (st, None)
      else
        (case client_of this svc of
           None \<Rightarrow> (st, Some TypeError)
         | Some c \<Rightarrow>
             (let st' = st\<lparr>calls := calls st @ [(client_key this svc, fragment req svc)]\<rparr>
              in case c_query c (fragment req svc) of
                   Throws e \<Rightarrow> (st', Some e)
                 | Falsy \<Rightarrow> (st', None)
                 | Returns p \<Rightarrow> (st'\<lparr>promises := promises st' @ [p]\<rparr>, None))))"

definition unheap ::
  "('q, 'p, 's) query_state \<Rightarrow> ('s qres, string \<times> ('q, 'p) request) dispatch" where
  "unheap st = \<lparr>promises = promises st, calls = map (\<lambda>i. (callee i, seen i)) (calls st)\<rparr>"

text \<open>
  What the client of a service returns when it is handed the fragment for that service
  (\<open>None\<close> when the instance holds no client for it), and the promises among a list of
  such answers.
\<close>

definition client_answer ::
  "('q, 'p, 's, 'm) datasource \<Rightarrow> ('q, 'p) request \<Rightarrow> jsval \<Rightarrow> 's qres ret option" where
  "client_answer this req svc =
     (case client_of this svc of None \<Rightarrow> None | Some c \<Rightarrow> Some (c_query c (fragment req svc)))"

fun returned :: "'a ret list \<Rightarrow> 'a promise list" where
  "returned [] = []"
| "returned (Returns p # rs) = p # returned rs"
| "returned (_ # rs) = returned rs"

text \<open>
  The invariant of the log of invocations: everything reachable from a request object
  handed to a client lies at or above address \<open>n\<close>, the object still reads as what was
  logged, and the objects of an earlier invocation all lie below those of a later one.
\<close>

definition clones_separate ::
  "nat \<Rightarrow> ('q, 'p) heap \<Rightarrow> ('q, 'p) invocation list \<Rightarrow> bool" where
  "clones_separate n H cs \<longleftrightarrow>
     (\<forall>i \<in> set cs. (\<forall>x \<in> set (reachable H (arg i)). n \<le> x \<and> x < length H)
                    \<and> read_request H (arg i) = Some (seen i))
     \<and> sorted_wrt (\<lambda>I J. \<forall>x \<in> set I. \<forall>y \<in> set J. x < y) (map (\<lambda>i. reachable H (arg i)) cs)"

text \<open>One branch of \<open>query\<close> on a well-formed request, given the heap it ends with.\<close>

definition branch_result ::
  "('q, 'p, 's, 'm) datasource \<Rightarrow> ('q, 'p) request \<Rightarrow> jsval \<Rightarrow> ('q, 'p, 's) query_state
    \<Rightarrow> ('q, 'p) heap \<Rightarrow> addr \<Rightarrow> ('q, 'p, 's) query_state \<times> error option" where
  "branch_result this req svc st h3 a' =
     (if targets (fragment req svc) = [] then (st\<lparr>heap := h3\<rparr>, None)
      else
        (case client_of this svc of
           None \<Rightarrow> (st\<lparr>heap := h3\<rparr>, Some TypeError)
         | Some c \<Rightarrow>
             (let st' = st\<lparr>heap := h3,
                          calls := calls st @
                            [\<lparr>callee = client_key this svc, arg = a', seen = fragment req svc\<rparr>]\<rparr>
              in case c_query c (fragment req svc) of
                   Throws e \<Rightarrow> (st', Some e)
                 | Falsy \<Rightarrow> (st', None)
                 | Returns p \<Rightarrow> (st'\<lparr>promises := promises st' @ [p]\<rparr>, None))))"

section \<open>The reduction of connectivity results, in the words of the specification\<close>

text \<open>
  The overall status starts as \<open>success\<close> and, for each result in order, is overwritten by
  the status of a result that is not \<open>success\<close>.
\<close>

definition spec_overall_status :: "test_result list \<Rightarrow> string" where
  "spec_overall_status rs =
     fold (\<lambda>r overall. if status r \<noteq> ''success'' then status r else overall) rs ''success''"

text \<open>One line per result: its 1-based index and its message.\<close>

definition spec_message :: "test_result list \<Rightarrow> string" where
  "spec_message rs =
     concat (map (\<lambda>(i, r). string_of_nat (i + 1) @ ''. '' @ message r @ '' \<newline>'')
               (enumerate 0 rs))"

section \<open>A concrete instance\<close>

text \<open>
  A registry of three services with a resolver, a key derivation and a parser for it, used
  to run the definitions on concrete inputs.
\<close>

definition demo_SERVICES :: "service_descriptor list" where
  "demo_SERVICES =
     [\<lparr>service = ''cvm'', namespace = ''QCE/CVM''\<rparr>,
      \<lparr>service = ''cdb'', namespace = ''QCE/CDB''\<rparr>,
      \<lparr>service = ''clb'', namespace = ''QCE/LB''\<rparr>]"

definition demo_resolve :: "jsval \<Rightarrow> jsval" where
  "demo_resolve v =
     (case v of
        Str ns \<Rightarrow> (case find (\<lambda>sd. namespace sd = ns) demo_SERVICES of
                     Some sd \<Rightarrow> Str (service sd)
                   | None \<Rightarrow> Undefined)
      | _ \<Rightarrow> Undefined)"

definition demo_upperCase :: "jsval \<Rightarrow> string" where
  "demo_upperCase v = (case v of Str s \<Rightarrow> map upper_char s | _ \<Rightarrow> [])"

definition demo_parse :: "string \<Rightarrow> (string \<times> jsval) list" where
  "demo_parse q =
     (if q = ''Namespace=QCE/CVM&Action=DescribeInstances''
      then [(''namespace'', Str ''QCE/CVM''), (''action'', Str ''DescribeInstances'')]
      else if q = ''Namespace=QCE/CVM&Action=''
      then [(''namespace'', Str ''QCE/CVM''), (''action'', Str [])]
      else if q = ''Namespace=QCE/CVM''
      then [(''namespace'', Str ''QCE/CVM'')]
      else [])"

text \<open>
  A client named \<open>name\<close> whose connectivity test gives \<open>t\<close> and whose query gives \<open>q\<close>;
  when \<open>q\<close> fulfils with an array, the array holds one series per target received.
\<close>

definition demo_client ::
  "string \<Rightarrow> test_result ret \<Rightarrow> string qres ret \<Rightarrow> (string, string, string, string) client" where
  "demo_client name t q =
     \<lparr>c_query = (\<lambda>request. case q of
          Returns (Fulfilled d (Arr xs)) \<Rightarrow>
            Returns (Fulfilled d (Arr (map (\<lambda>x. name @ '':'' @ target_body x) (targets request))))
        | r \<Rightarrow> r),
      c_testDatasource = t,
      c_metricFindQuery = (\<lambda>queries. Returns (Fulfilled 1 [name]))\<rparr>"

definition demo ::
  "(string \<times> jsval) list \<Rightarrow> (string \<times> (string, string, string, string) client) list
     \<Rightarrow> (string, string, string, string) datasource" where
  "demo cfg cs =
     \<lparr>SERVICES = demo_SERVICES, GetServiceFromNamespace = demo_resolve,
      ParseMetricQuery = demo_parse, upperCase = demo_upperCase,
      jsonData = cfg, clients = map_of cs\<rparr>"

text \<open>
  A request with two targets for \<open>cvm\<close> and one for \<open>cdb\<close>: the request object is at
  address 4, its array at address 3.
\<close>

definition demo_heap :: "(string, string) heap" where
  "demo_heap =
     [TargetObj (Target (Some (Str ''cvm'')) ''A''),
      TargetObj (Target (Some (Str ''cdb'')) ''B''),
      TargetObj (Target (Some (Str ''cvm'')) ''C''),
      ArrayObj [0, 1, 2],
      OptionsObj 3 ''now-6h'']"

definition demo_request :: "(string, string) request" where
  "demo_request =
     \<lparr>targets = [Target (Some (Str ''cvm'')) ''A'', Target (Some (Str ''cdb'')) ''B'',
                 Target (Some (Str ''cvm'')) ''C''],
      rest = ''now-6h''\<rparr>"

text \<open>The same request without the target for \<open>cdb\<close>: the request object is at address 3.\<close>

definition demo_heap_cvm :: "(string, string) heap" where
  "demo_heap_cvm =
     [TargetObj (Target (Some (Str ''cvm'')) ''A''),
      TargetObj (Target (Some (Str ''cvm'')) ''C''),
      ArrayObj [0, 1],
      OptionsObj 2 ''now-6h'']"

definition demo_request_cvm :: "(string, string) request" where
  "demo_request_cvm =
     \<lparr>targets = [Target (Some (Str ''cvm'')) ''A'', Target (Some (Str ''cvm'')) ''C''],
      rest = ''now-6h''\<rparr>"

text \<open>The three clients, with what the query of each gives.\<close>

definition demo_pool ::
  "string qres ret \<Rightarrow> string qres ret \<Rightarrow> string qres ret
     \<Rightarrow> (string \<times> (string, string, string, string) client) list" where
  "demo_pool q1 q2 q3 =
     [(''CVMDatasource'', demo_client ''cvm'' Falsy q1),
      (''CDBDatasource'', demo_client ''cdb'' Falsy q2),
      (''CLBDatasource'', demo_client ''clb'' Falsy q3)]"

definition demo_all :: "(string \<times> jsval) list" where
  "demo_all = [(''cvm'', Bool True), (''cdb'', Bool True), (''clb'', Bool True)]"

lemmas demo_defs = demo_def demo_SERVICES_def demo_resolve_def demo_upperCase_def
  demo_parse_def demo_client_def js_get_def upper_char_def client_of_def client_key_def

section \<open>The active services\<close>

lemma getNamespaces_loop_eq:
  "getNamespaces_loop this sds acc =
     acc @ map namespace (filter (\<lambda>sd. js_get (jsonData this) (service sd) = Bool True) sds)"
  by (induction sds arbitrary: acc) auto

lemma getSelectedServices_eq:
  "getSelectedServices this =
     map (\<lambda>sd. GetServiceFromNamespace this (Str (namespace sd)))
       (filter (\<lambda>sd. js_get (jsonData this) (service sd) = Bool True) (SERVICES this))"
  by (simp add: getSelectedServices_def getNamespaces_def getNamespaces_loop_eq comp_def)

lemma getSelectedServices_jsonData_cong:
  "map_of cfg = map_of (jsonData this) \<Longrightarrow>
   getSelectedServices (this\<lparr>jsonData := cfg\<rparr>) = getSelectedServices this"
  by (simp add: getSelectedServices_eq js_get_def)

lemma getSelectedServices_none:
  assumes "\<forall>sd \<in> set (SERVICES this). js_get (jsonData this) (service sd) \<noteq> Bool True"
  shows "getSelectedServices this = []"
proof -
  from assms
  have "filter (\<lambda>sd. js_get (jsonData this) (service sd) = Bool True) (SERVICES this) = []"
    by (simp add: filter_empty_conv)
  then show ?thesis
    by (simp add: getSelectedServices_eq)
qed

text \<open>
  C2. \<open>getSelectedServices\<close> returns, in the order of the registry, the resolved service
  key of every descriptor whose flag in the configuration is strictly the boolean
  \<open>true\<close>; it returns the empty sequence when no flag is enabled; and the result depends
  on the configuration only as a mapping, not on the order in which its entries are held.
\<close>

theorem getSelectedServices_registry_order:
  "getSelectedServices this =
     map (\<lambda>sd. GetServiceFromNamespace this (Str (namespace sd)))
       (filter (\<lambda>sd. js_get (jsonData this) (service sd) = Bool True) (SERVICES this))
   \<and> ((\<forall>sd \<in> set (SERVICES this). js_get (jsonData this) (service sd) \<noteq> Bool True)
        \<longrightarrow> getSelectedServices this = [])
   \<and> (map_of cfg = map_of (jsonData this)
        \<longrightarrow> getSelectedServices (this\<lparr>jsonData := cfg\<rparr>) = getSelectedServices this)"
  using getSelectedServices_eq [of this] getSelectedServices_none [of this]
    getSelectedServices_jsonData_cong [of cfg this]
  by blast

theorem getSelectedServices_registry_order_witness:
  "getSelectedServices (demo [(''cdb'', Bool True), (''clb'', Str ''true''), (''cvm'', Bool True)] [])
     = [Str ''cvm'', Str ''cdb'']
   \<and> getSelectedServices (demo [(''cvm'', Bool True), (''clb'', Str ''true''), (''cdb'', Bool True)] [])
     = [Str ''cvm'', Str ''cdb'']
   \<and> getSelectedServices (demo [(''cvm'', Bool False), (''cdb'', Num 1)] []) = []"
proof -
  let ?a = "demo [(''cdb'', Bool True), (''clb'', Str ''true''), (''cvm'', Bool True)] []"
  let ?cfg = "[(''cvm'', Bool True), (''clb'', Str ''true''), (''cdb'', Bool True)]"
  let ?n = "demo [(''cvm'', Bool False), (''cdb'', Num 1)] []"
  have h1: "map_of ?cfg = map_of (jsonData ?a)"
    by (rule ext) (simp add: demo_def)
  have h2: "\<forall>sd \<in> set (SERVICES ?n). js_get (jsonData ?n) (service sd) \<noteq> Bool True"
    by (simp add: demo_defs)
  have e: "?a\<lparr>jsonData := ?cfg\<rparr> = demo ?cfg []"
    by (simp add: demo_def)
  from getSelectedServices_registry_order [of ?a ?cfg]
    getSelectedServices_registry_order [of ?n ?cfg] h1 h2 e
  show ?thesis
    by (simp add: demo_defs)
qed

section \<open>Promise.all\<close>

lemma first_rejected_None:
  "first_rejected ps = None \<longleftrightarrow> (\<forall>t e. Rejected t e \<notin> set ps)"
  by (induction ps rule: first_rejected.induct) (auto split: option.splits)

lemma first_rejected_Some:
  "first_rejected ps = Some (t, e) \<Longrightarrow> Rejected t e \<in> set ps"
  by (induction ps arbitrary: t e rule: first_rejected.induct)
     (auto split: option.splits if_splits)

lemma first_rejected_least:
  "first_rejected ps = Some (t, e) \<Longrightarrow> Rejected t' e' \<in> set ps \<Longrightarrow> t \<le> t'"
  by (induction ps arbitrary: t e rule: first_rejected.induct)
     (auto split: option.splits if_splits simp: first_rejected_None)

lemma fulfilled_values_map:
  "fulfilled_values (map (\<lambda>(t, v). Fulfilled t (f v)) tvs) =
     Some (foldr max (map fst tvs) 0, map (\<lambda>(t, v). f v) tvs)"
  by (induction tvs) auto

lemma first_rejected_fulfilled:
  "first_rejected (map (\<lambda>(t, v). Fulfilled t (f v)) tvs) = None"
  by (induction tvs) auto

lemma promise_all_fulfilled:
  "promise_all (map (\<lambda>(t, v). Fulfilled t (f v)) tvs) =
     Fulfilled (foldr max (map fst tvs) 0) (map (\<lambda>(t, v). f v) tvs)"
  by (simp add: promise_all_def first_rejected_fulfilled fulfilled_values_map)

lemma promise_all_rejected:
  assumes "Rejected t' e' \<in> set ps"
  shows "\<exists>t e. promise_all ps = Rejected t e \<and> Rejected t e \<in> set ps \<and> t \<le> t'"
proof -
  from assms obtain t e where f: "first_rejected ps = Some (t, e)"
    using first_rejected_None [of ps] by (cases "first_rejected ps") auto
  with assms show ?thesis
    by (auto simp: promise_all_def dest: first_rejected_Some first_rejected_least)
qed

section \<open>The connectivity test\<close>

lemma test_service_returns:
  assumes "client_of this svc = Some c" and "\<forall>e. c_testDatasource c \<noteq> Throws e"
  shows "test_service this svc st =
      (st\<lparr>promises := promises st @ [as_promise (c_testDatasource c)],
          calls := calls st @ [client_key this svc]\<rparr>, None)"
  using assms by (cases "c_testDatasource c") (simp_all add: test_service_def)

lemma forEach_test_returns:
  "map (client_of this) svcs = map Some cs \<Longrightarrow>
   \<forall>c \<in> set cs. \<forall>e. c_testDatasource c \<noteq> Throws e \<Longrightarrow>
   forEach svcs (test_service this) st =
     (st\<lparr>promises := promises st @ map (\<lambda>c. as_promise (c_testDatasource c)) cs,
         calls := calls st @ map (client_key this) svcs\<rparr>, None)"
proof (induction svcs arbitrary: cs st)
  case Nil
  then show ?case by simp
next
  case (Cons svc svcs)
  then obtain c cs' where cs: "cs = c # cs'" by (cases cs) auto
  with Cons.prems have c: "client_of this svc = Some c"
    and more: "map (client_of this) svcs = map Some cs'"
    and nt: "\<forall>e. c_testDatasource c \<noteq> Throws e"
    and nts: "\<forall>c \<in> set cs'. \<forall>e. c_testDatasource c \<noteq> Throws e"
    by auto
  show ?case
    by (simp add: test_service_returns [OF c nt] Cons.IH [OF more nts] cs)
qed

lemma test_loop_eq:
  "i \<le> length rs \<Longrightarrow>
   test_loop (map Some rs) i s m =
     Inr (fold (\<lambda>r s. if status r \<noteq> ''success'' then status r else s) (drop i rs) s,
          m @ concat (map (\<lambda>(j, r). string_of_nat (j + 1) @ ''. '' @ message r @ '' \<newline>'')
                 (enumerate i (drop i rs))))"
proof (induction "length rs - i" arbitrary: i s m)
  case 0
  then show ?case by (simp add: test_loop.simps)
next
  case (Suc k)
  then have lt: "i < length rs" by simp
  then have d: "drop i rs = rs ! i # drop (Suc i) rs"
    by (simp add: Cons_nth_drop_Suc)
  have "k = length rs - Suc i" using Suc.hyps(2) by simp
  from Suc.hyps(1) [OF this] lt show ?case
    by (subst test_loop.simps) (simp add: d)
qed

lemma test_then_eq:
  "test_then (map Some rs) =
     Inr \<lparr>status = spec_overall_status rs, message = spec_message rs,
          title = upperFirst (spec_overall_status rs)\<rparr>"
  by (simp add: test_then_def test_loop_eq spec_overall_status_def spec_message_def)

lemma fold_last_non_success:
  "fold (\<lambda>r s. if status r \<noteq> ''success'' then status r else s) rs s =
     (case rev (filter (\<lambda>r. status r \<noteq> ''success'') rs) of [] \<Rightarrow> s | r # _ \<Rightarrow> status r)"
  by (induction rs arbitrary: s rule: rev_induct) (auto split: list.splits)

lemma as_promise_rejected:
  "as_promise r = Rejected t e \<longleftrightarrow> r = Returns (Rejected t e)"
  by (cases r rule: as_promise.cases) auto

text \<open>
  C1. When every active client's connectivity test resolves (the results \<open>trs\<close>, each with
  its time of completion, are not empty), \<open>testDatasource\<close> resolves to the record whose
  status is the reduction that starts at \<open>success\<close> and is overwritten by each status that
  is not \<open>success\<close>, which is the status of the last such result when there is one; whose
  message has one line per result, with its 1-based index, in order; and whose title is
  that status with its first letter in upper case.
\<close>

theorem testDatasource_reduction:
  assumes "map (client_of this) (getSelectedServices this) = map Some cs"
    and "map c_testDatasource cs = map (\<lambda>(t, r). Returns (Fulfilled t r)) trs"
    and "trs \<noteq> []"
  shows "snd (testDatasource this) =
           Inr (Fulfilled (foldr max (map fst trs) 0)
                 \<lparr>status = spec_overall_status (map snd trs),
                  message = spec_message (map snd trs),
                  title = upperFirst (spec_overall_status (map snd trs))\<rparr>)
         \<and> spec_overall_status (map snd trs) =
             (case rev (filter (\<lambda>r. status r \<noteq> ''success'') (map snd trs)) of
                [] \<Rightarrow> ''success''
              | r # _ \<Rightarrow> status r)"
proof
  have nt: "\<forall>c \<in> set cs. \<forall>e. c_testDatasource c \<noteq> Throws e"
  proof (intro ballI allI)
    fix c e
    assume "c \<in> set cs"
    then have "c_testDatasource c \<in> set (map (\<lambda>(t, r). Returns (Fulfilled t r)) trs)"
      using assms(2) by (metis image_eqI set_map)
    then show "c_testDatasource c \<noteq> Throws e" by auto
  qed
  have ps: "map (\<lambda>c. as_promise (c_testDatasource c)) cs =
              map (\<lambda>(t, r). Fulfilled t (Some r)) trs"
  proof -
    have "map (\<lambda>c. as_promise (c_testDatasource c)) cs = map as_promise (map c_testDatasource cs)"
      by simp
    also have "\<dots> = map (\<lambda>(t, r). Fulfilled t (Some r)) trs"
      by (simp add: assms(2) split_def)
    finally show ?thesis .
  qed
  have vs: "map (\<lambda>(t, r). Some r) trs = map Some (map snd trs)"
    by (simp add: split_def)
  have fin: "promise_then (Fulfilled (foldr max (map fst trs) 0) (map Some (map snd trs))) test_then =
      Fulfilled (foldr max (map fst trs) 0)
        \<lparr>status = spec_overall_status (map snd trs),
         message = spec_message (map snd trs),
         title = upperFirst (spec_overall_status (map snd trs))\<rparr>"
    by (simp only: promise_then_def test_then_eq promise.case sum.case)
  from assms(3) have ne: "map (\<lambda>(t, r). Fulfilled t (Some r)) trs \<noteq> []" by simp
  show "snd (testDatasource this) =
           Inr (Fulfilled (foldr max (map fst trs) 0)
                 \<lparr>status = spec_overall_status (map snd trs),
                  message = spec_message (map snd trs),
                  title = upperFirst (spec_overall_status (map snd trs))\<rparr>)"
    using ne
    by (simp add: testDatasource_def forEach_test_returns [OF assms(1) nt] ps
        promise_all_fulfilled vs fin del: map_map)
next
  show "spec_overall_status (map snd trs) =
             (case rev (filter (\<lambda>r. status r \<noteq> ''success'') (map snd trs)) of
                [] \<Rightarrow> ''success''
              | r # _ \<Rightarrow> status r)"
    unfolding spec_overall_status_def by (rule fold_last_non_success)
qed

theorem testDatasource_reduction_witness:
  "snd (testDatasource (demo [(''cvm'', Bool True), (''cdb'', Bool True), (''clb'', Bool True)]
     [(''CVMDatasource'', demo_client ''cvm''
         (Returns (Fulfilled 3 \<lparr>status = ''error'', message = ''m1''\<rparr>)) Falsy),
      (''CDBDatasource'', demo_client ''cdb''
         (Returns (Fulfilled 1 \<lparr>status = ''timeout'', message = ''slow''\<rparr>)) Falsy),
      (''CLBDatasource'', demo_client ''clb''
         (Returns (Fulfilled 2 \<lparr>status = ''success'', message = ''fine''\<rparr>)) Falsy)]))
   = Inr (Fulfilled 3
           \<lparr>status = ''timeout'',
            message = ''1. m1 \<newline>2. slow \<newline>3. fine \<newline>'',
            title = ''Timeout''\<rparr>)"
proof -
  let ?cvm = "demo_client ''cvm'' (Returns (Fulfilled 3 \<lparr>status = ''error'', message = ''m1''\<rparr>)) Falsy"
  let ?cdb = "demo_client ''cdb'' (Returns (Fulfilled 1 \<lparr>status = ''timeout'', message = ''slow''\<rparr>)) Falsy"
  let ?clb = "demo_client ''clb'' (Returns (Fulfilled 2 \<lparr>status = ''success'', message = ''fine''\<rparr>)) Falsy"
  let ?d = "demo [(''cvm'', Bool True), (''cdb'', Bool True), (''clb'', Bool True)]
     [(''CVMDatasource'', ?cvm), (''CDBDatasource'', ?cdb), (''CLBDatasource'', ?clb)]"
  let ?trs = "[(3, \<lparr>status = ''error'', message = ''m1''\<rparr>),
               (1, \<lparr>status = ''timeout'', message = ''slow''\<rparr>),
               (2::nat, \<lparr>status = ''success'', message = ''fine''\<rparr>)]"
  have h1: "map (client_of ?d) (getSelectedServices ?d) = map Some [?cvm, ?cdb, ?clb]"
    by (simp add: getSelectedServices_eq demo_defs)
  have h2: "map c_testDatasource [?cvm, ?cdb, ?clb] = map (\<lambda>(t, r). Returns (Fulfilled t r)) ?trs"
    by (simp add: demo_client_def)
  have h3: "?trs \<noteq> []" by simp
  from testDatasource_reduction [OF h1 h2 h3] show ?thesis
    by (simp add: spec_overall_status_def spec_message_def string_of_nat.simps upper_char_def)
qed

text \<open>
  C6. With no active service, \<open>testDatasource\<close> resolves at once (it does not reject or
  throw) to the fixed error record, and no client is invoked.
\<close>

theorem testDatasource_nothing_configured:
  assumes "\<forall>sd \<in> set (SERVICES this). js_get (jsonData this) (service sd) \<noteq> Bool True"
  shows "testDatasource this =
           ([], Inr (Fulfilled 0
                  \<lparr>status = ''error'',
                   message = ''Nothing configured. At least one of the API's services must be configured.'',
                   title = ''Error''\<rparr>))"
  by (simp add: testDatasource_def getSelectedServices_none [OF assms] promise_resolve_def
      nothing_configured_def)

theorem testDatasource_nothing_configured_witness:
  "testDatasource (demo [(''cvm'', Bool False), (''cdb'', Str ''true'')]
     [(''CVMDatasource'', demo_client ''cvm'' (Throws (ClientError ''never called'')) Falsy)]) =
           ([], Inr (Fulfilled 0
                  \<lparr>status = ''error'',
                   message = ''Nothing configured. At least one of the API's services must be configured.'',
                   title = ''Error''\<rparr>))"
proof -
  let ?d = "demo [(''cvm'', Bool False), (''cdb'', Str ''true'')]
     [(''CVMDatasource'', demo_client ''cvm'' (Throws (ClientError ''never called'')) Falsy)]"
  have h: "\<forall>sd \<in> set (SERVICES ?d). js_get (jsonData ?d) (service sd) \<noteq> Bool True"
    by (simp add: demo_defs)
  from testDatasource_nothing_configured [OF h] show ?thesis .
qed

lemma forEach_test_first_throw:
  "map (client_of this) svcs = map Some (pre @ c # post) \<Longrightarrow>
   \<forall>c' \<in> set pre. \<forall>e'. c_testDatasource c' \<noteq> Throws e' \<Longrightarrow>
   c_testDatasource c = Throws e \<Longrightarrow>
   forEach svcs (test_service this) st =
     (st\<lparr>promises := promises st @ map (\<lambda>c. as_promise (c_testDatasource c)) pre,
         calls := calls st @ map (client_key this) (take (Suc (length pre)) svcs)\<rparr>, Some e)"
proof (induction pre arbitrary: svcs st)
  case Nil
  then obtain svc svcs' where svcs: "svcs = svc # svcs'" and c: "client_of this svc = Some c"
    by (cases svcs) auto
  with Nil.prems(3) show ?case
    by (simp add: test_service_def)
next
  case (Cons c1 pre)
  then obtain svc svcs' where svcs: "svcs = svc # svcs'" and c1: "client_of this svc = Some c1"
    and more: "map (client_of this) svcs' = map Some (pre @ c # post)"
    by (cases svcs) auto
  from Cons.prems(2) have nt: "\<forall>e. c_testDatasource c1 \<noteq> Throws e"
    and nts: "\<forall>c' \<in> set pre. \<forall>e'. c_testDatasource c' \<noteq> Throws e'" by auto
  show ?case
    by (simp add: svcs test_service_returns [OF c1 nt] Cons.IH [OF more nts Cons.prems(3)])
qed

lemma fulfilled_values_Some:
  "fulfilled_values ps = Some (t, vs) \<Longrightarrow>
   \<forall>p \<in> set ps. \<exists>t' v. p = Fulfilled t' v \<and> v \<in> set vs"
proof (induction ps arbitrary: t vs)
  case Nil
  then show ?case by simp
next
  case (Cons p ps)
  show ?case
  proof (cases p)
    case (Fulfilled t0 v)
    with Cons.prems obtain t1 vs1 where rec: "fulfilled_values ps = Some (t1, vs1)"
      and vs: "vs = v # vs1"
      by (auto split: option.splits)
    from Cons.IH [OF rec] Fulfilled vs show ?thesis by auto
  next
    case (Rejected t0 e)
    with Cons.prems show ?thesis by simp
  next
    case Pending
    with Cons.prems show ?thesis by simp
  qed
qed

lemma promise_all_Fulfilled:
  "promise_all ps = Fulfilled t vs \<Longrightarrow>
   \<forall>p \<in> set ps. \<exists>t' v. p = Fulfilled t' v \<and> v \<in> set vs"
  by (auto simp: promise_all_def split: option.splits dest!: fulfilled_values_Some)

lemma test_loop_None:
  "i \<le> length vs \<Longrightarrow> None \<in> set (drop i vs) \<Longrightarrow> test_loop vs i s m = Inl TypeError"
proof (induction "length vs - i" arbitrary: i s m)
  case 0
  then show ?case by simp
next
  case (Suc k)
  then have lt: "i < length vs" by simp
  then have d: "drop i vs = vs ! i # drop (Suc i) vs"
    by (simp add: Cons_nth_drop_Suc)
  show ?case
  proof (cases "vs ! i")
    case None
    with lt show ?thesis by (subst test_loop.simps) simp
  next
    case (Some r)
    with Suc.prems(2) d have in': "None \<in> set (drop (Suc i) vs)" by auto
    have k: "k = length vs - Suc i" using Suc.hyps(2) by simp
    from lt have le: "Suc i \<le> length vs" by simp
    from Suc.hyps(1) [OF k le in'] lt Some show ?thesis
      by (subst test_loop.simps) simp
  qed
qed

lemma test_then_Inr: "test_then vs = Inr r \<Longrightarrow> None \<notin> set vs"
proof
  assume a: "test_then vs = Inr r" and "None \<in> set vs"
  then have "test_loop vs 0 ''success'' [] = Inl TypeError"
    using test_loop_None [of 0 vs] by simp
  with a show False by (simp add: test_then_def)
qed

lemma as_promise_fulfilled:
  "as_promise r = Fulfilled t (Some v) \<longleftrightarrow> r = Returns (Fulfilled t v)"
  by (cases r rule: as_promise.cases) auto

text \<open>
  C9 as stated fails: a client whose connectivity test rejects makes the promise of
  \<open>testDatasource\<close> reject, although the two other clients resolve; the rejection is not
  turned into a result of status \<open>error\<close> and no aggregate is produced.
\<close>

theorem testDatasource_rejection_counterexample:
  "testDatasource (demo [(''cvm'', Bool True), (''cdb'', Bool True), (''clb'', Bool True)]
     [(''CVMDatasource'', demo_client ''cvm''
         (Returns (Fulfilled 3 \<lparr>status = ''success'', message = ''fine''\<rparr>)) Falsy),
      (''CDBDatasource'', demo_client ''cdb''
         (Returns (Rejected 1 (ClientError ''connection refused''))) Falsy),
      (''CLBDatasource'', demo_client ''clb''
         (Returns (Fulfilled 2 \<lparr>status = ''success'', message = ''fine''\<rparr>)) Falsy)])
   = ([''CVMDatasource'', ''CDBDatasource'', ''CLBDatasource''],
      Inr (Rejected 1 (ClientError ''connection refused'')))"
  by (simp add: testDatasource_def getSelectedServices_eq test_service_def demo_defs
      promise_all_def promise_then_def)

text \<open>
  C9, amended. With every active service's client in the pool (\<open>cs\<close>, in order): the
  connectivity tests are invoked in order until one throws. When the first client to
  throw is \<open>c\<close>, after the clients \<open>pre\<close>, \<open>testDatasource\<close> throws the error of \<open>c\<close>
  and exactly the clients up to and including \<open>c\<close> have been invoked. When no test
  throws, every active client's test has been invoked, in order; if then at least one of
  the returned promises rejects, the promise of \<open>testDatasource\<close> rejects with the
  error, unchanged, of a rejecting client, the one that rejects first, and no aggregate
  record is produced. The promise of \<open>testDatasource\<close> fulfils only when every test has
  returned a promise that fulfils.
\<close>

theorem testDatasource_failure_propagates:
  assumes "map (client_of this) (getSelectedServices this) = map Some cs"
  shows "(cs = pre @ c # post \<and> (\<forall>c' \<in> set pre. \<forall>e'. c_testDatasource c' \<noteq> Throws e')
            \<and> c_testDatasource c = Throws e
          \<longrightarrow> testDatasource this =
                (map (client_key this) (take (Suc (length pre)) (getSelectedServices this)), Inl e))
       \<and> ((\<forall>c \<in> set cs. \<forall>e. c_testDatasource c \<noteq> Throws e)
          \<longrightarrow> fst (testDatasource this) = map (client_key this) (getSelectedServices this))
       \<and> ((\<forall>c \<in> set cs. \<forall>e. c_testDatasource c \<noteq> Throws e)
            \<and> (\<exists>c \<in> set cs. \<exists>t e. c_testDatasource c = Returns (Rejected t e))
          \<longrightarrow> (\<exists>t e. snd (testDatasource this) = Inr (Rejected t e)
                    \<and> Returns (Rejected t e) \<in> c_testDatasource ` set cs
                    \<and> (\<forall>t' e'. Returns (Rejected t' e') \<in> c_testDatasource ` set cs \<longrightarrow> t \<le> t')))
       \<and> (\<forall>t r. snd (testDatasource this) = Inr (Fulfilled t r)
          \<longrightarrow> (\<forall>c \<in> set cs. \<exists>t' v. c_testDatasource c = Returns (Fulfilled t' v)))"
proof -
  let ?init = "\<lparr>promises = [], calls = []\<rparr> :: (test_result option, string) dispatch"
  let ?ps = "map (\<lambda>c. as_promise (c_testDatasource c)) cs"
  have run: "forEach (getSelectedServices this) (test_service this) ?init =
      (\<lparr>promises = ?ps, calls = map (client_key this) (getSelectedServices this)\<rparr>, None)"
    if "\<forall>c \<in> set cs. \<forall>e. c_testDatasource c \<noteq> Throws e"
    by (simp add: forEach_test_returns [OF assms that])
  have thrown: "testDatasource this =
      (map (client_key this) (take (Suc (length pre)) (getSelectedServices this)), Inl e)"
    if "cs = pre @ c # post" and "\<forall>c' \<in> set pre. \<forall>e'. c_testDatasource c' \<noteq> Throws e'"
      and "c_testDatasource c = Throws e" for pre c post e
  proof -
    from assms that(1)
    have m: "map (client_of this) (getSelectedServices this) = map Some (pre @ c # post)" by simp
    show ?thesis
      by (simp add: testDatasource_def forEach_test_first_throw [OF m that(2,3)])
  qed
  have c1: "cs = pre @ c # post \<and> (\<forall>c' \<in> set pre. \<forall>e'. c_testDatasource c' \<noteq> Throws e')
            \<and> c_testDatasource c = Throws e
          \<longrightarrow> testDatasource this =
                (map (client_key this) (take (Suc (length pre)) (getSelectedServices this)), Inl e)"
    using thrown by blast
  have c2: "(\<forall>c \<in> set cs. \<forall>e. c_testDatasource c \<noteq> Throws e)
          \<longrightarrow> fst (testDatasource this) = map (client_key this) (getSelectedServices this)"
    by (simp add: testDatasource_def run)
  have c3: "(\<forall>c \<in> set cs. \<forall>e. c_testDatasource c \<noteq> Throws e)
            \<and> (\<exists>c \<in> set cs. \<exists>t e. c_testDatasource c = Returns (Rejected t e))
          \<longrightarrow> (\<exists>t e. snd (testDatasource this) = Inr (Rejected t e)
                    \<and> Returns (Rejected t e) \<in> c_testDatasource ` set cs
                    \<and> (\<forall>t' e'. Returns (Rejected t' e') \<in> c_testDatasource ` set cs \<longrightarrow> t \<le> t'))"
  proof
    assume a: "(\<forall>c \<in> set cs. \<forall>e. c_testDatasource c \<noteq> Throws e)
            \<and> (\<exists>c \<in> set cs. \<exists>t e. c_testDatasource c = Returns (Rejected t e))"
    then have nt: "\<forall>c \<in> set cs. \<forall>e. c_testDatasource c \<noteq> Throws e" ..
    from a obtain c0 t0 e0 where c0: "c0 \<in> set cs"
      and r0: "c_testDatasource c0 = Returns (Rejected t0 e0)" by blast
    then have "as_promise (c_testDatasource c0) = Rejected t0 e0" by simp
    with c0 have in0: "Rejected t0 e0 \<in> set ?ps" by force
    then have ne: "?ps \<noteq> []" by auto
    from promise_all_rejected [OF in0] obtain t e where
      pa: "promise_all ?ps = Rejected t e" and mem: "Rejected t e \<in> set ?ps" by blast
    from mem obtain c1 where "c1 \<in> set cs" and "as_promise (c_testDatasource c1) = Rejected t e"
      by auto
    then have mem': "Returns (Rejected t e) \<in> c_testDatasource ` set cs"
      by (force simp: as_promise_rejected)
    have least: "\<forall>t' e'. Returns (Rejected t' e') \<in> c_testDatasource ` set cs \<longrightarrow> t \<le> t'"
    proof (intro allI impI)
      fix t' e'
      assume "Returns (Rejected t' e') \<in> c_testDatasource ` set cs"
      then obtain c where "c \<in> set cs" and "c_testDatasource c = Returns (Rejected t' e')"
        by force
      then have "as_promise (c_testDatasource c) = Rejected t' e'" by simp
      with \<open>c \<in> set cs\<close> have "Rejected t' e' \<in> set ?ps" by force
      moreover from pa have "first_rejected ?ps = Some (t, e)"
        by (auto simp: promise_all_def split: option.splits)
      ultimately show "t \<le> t'"
        by (rule first_rejected_least [rotated])
    qed
    have "snd (testDatasource this) = Inr (Rejected t e)"
      using ne by (simp add: testDatasource_def run [OF nt] pa promise_then_def)
    with mem' least
    show "\<exists>t e. snd (testDatasource this) = Inr (Rejected t e)
          \<and> Returns (Rejected t e) \<in> c_testDatasource ` set cs
          \<and> (\<forall>t' e'. Returns (Rejected t' e') \<in> c_testDatasource ` set cs \<longrightarrow> t \<le> t')"
      by blast
  qed
  have c4: "\<forall>t r. snd (testDatasource this) = Inr (Fulfilled t r)
          \<longrightarrow> (\<forall>c \<in> set cs. \<exists>t' v. c_testDatasource c = Returns (Fulfilled t' v))"
  proof (intro allI impI ballI)
    fix t r c
    assume f: "snd (testDatasource this) = Inr (Fulfilled t r)" and c: "c \<in> set cs"
    have nt: "\<forall>c \<in> set cs. \<forall>e. c_testDatasource c \<noteq> Throws e"
    proof (rule ccontr)
      assume "\<not> (\<forall>c \<in> set cs. \<forall>e. c_testDatasource c \<noteq> Throws e)"
      then have "\<exists>c \<in> set cs. \<exists>e. c_testDatasource c = Throws e" by blast
      then obtain pre c' post where "cs = pre @ c' # post"
        and "\<exists>e. c_testDatasource c' = Throws e"
        and "\<forall>c'' \<in> set pre. \<not> (\<exists>e. c_testDatasource c'' = Throws e)"
        by (auto dest!: split_list_first_prop)
      with thrown [of pre c' post] f show False by auto
    qed
    from c have ne: "?ps \<noteq> []" by auto
    with f have "promise_then (promise_all ?ps) test_then = Fulfilled t r"
      by (simp add: testDatasource_def run [OF nt])
    then obtain vs where pa: "promise_all ?ps = Fulfilled t vs" and tt: "test_then vs = Inr r"
      by (auto simp: promise_then_def split: promise.splits sum.splits)
    from c have "as_promise (c_testDatasource c) \<in> set ?ps" by simp
    with promise_all_Fulfilled [OF pa] obtain t' v where
      "as_promise (c_testDatasource c) = Fulfilled t' v" and "v \<in> set vs" by blast
    moreover from test_then_Inr [OF tt] \<open>v \<in> set vs\<close> obtain x where "v = Some x"
      by (cases v) auto
    ultimately show "\<exists>t' v. c_testDatasource c = Returns (Fulfilled t' v)"
      by (auto simp: as_promise_fulfilled)
  qed
  from c1 c2 c3 c4 show ?thesis by (intro conjI)
qed

theorem testDatasource_failure_propagates_witness:
  "testDatasource (demo [(''cvm'', Bool True), (''cdb'', Bool True), (''clb'', Bool True)]
       [(''CVMDatasource'', demo_client ''cvm''
           (Returns (Fulfilled 1 \<lparr>status = ''success'', message = ''fine''\<rparr>)) Falsy),
        (''CDBDatasource'', demo_client ''cdb'' (Throws (ClientError ''first'')) Falsy),
        (''CLBDatasource'', demo_client ''clb'' (Throws (ClientError ''second'')) Falsy)])
     = ([''CVMDatasource'', ''CDBDatasource''], Inl (ClientError ''first''))
   \<and> (\<exists>t e. testDatasource (demo [(''cvm'', Bool True), (''cdb'', Bool True)]
       [(''CVMDatasource'', demo_client ''cvm''
           (Returns (Rejected 5 (ClientError ''too slow''))) Falsy),
        (''CDBDatasource'', demo_client ''cdb''
           (Returns (Rejected 1 (ClientError ''connection refused''))) Falsy)])
      = ([''CVMDatasource'', ''CDBDatasource''], Inr (Rejected t e))
      \<and> t = 1 \<and> e = ClientError ''connection refused'')"
proof -
  let ?a1 = "demo_client ''cvm'' (Returns (Rejected 5 (ClientError ''too slow''))) Falsy"
  let ?a2 = "demo_client ''cdb'' (Returns (Rejected 1 (ClientError ''connection refused''))) Falsy"
  let ?a = "demo [(''cvm'', Bool True), (''cdb'', Bool True)]
       [(''CVMDatasource'', ?a1), (''CDBDatasource'', ?a2)]"
  let ?b1 = "demo_client ''cvm''
           (Returns (Fulfilled 1 \<lparr>status = ''success'', message = ''fine''\<rparr>)) Falsy"
  let ?b2 = "demo_client ''cdb'' (Throws (ClientError ''first'')) Falsy"
  let ?b3 = "demo_client ''clb'' (Throws (ClientError ''second'')) Falsy"
  let ?b = "demo [(''cvm'', Bool True), (''cdb'', Bool True), (''clb'', Bool True)]
       [(''CVMDatasource'', ?b1), (''CDBDatasource'', ?b2), (''CLBDatasource'', ?b3)]"
  have ha: "map (client_of ?a) (getSelectedServices ?a) = map Some [?a1, ?a2]"
    by (simp add: getSelectedServices_eq demo_defs)
  have hb: "map (client_of ?b) (getSelectedServices ?b) = map Some [?b1, ?b2, ?b3]"
    by (simp add: getSelectedServices_eq demo_defs)
  have sb: "getSelectedServices ?b = [Str ''cvm'', Str ''cdb'', Str ''clb'']"
    by (simp add: getSelectedServices_eq demo_defs)
  have sa: "getSelectedServices ?a = [Str ''cvm'', Str ''cdb'']"
    by (simp add: getSelectedServices_eq demo_defs)
  have pb: "[?b1, ?b2, ?b3] = [?b1] @ ?b2 # [?b3]
      \<and> (\<forall>c' \<in> set [?b1]. \<forall>e'. c_testDatasource c' \<noteq> Throws e')
      \<and> c_testDatasource ?b2 = Throws (ClientError ''first'')"
    by (simp add: demo_client_def)
  from testDatasource_failure_propagates [OF hb, of "[?b1]" ?b2 "[?b3]" "ClientError ''first''"] pb
  have "testDatasource ?b =
      (map (client_key ?b) (take (Suc (length [?b1])) (getSelectedServices ?b)),
       Inl (ClientError ''first''))"
    by blast
  moreover have "map (client_key ?b) (take (Suc (length [?b1])) (getSelectedServices ?b)) =
      [''CVMDatasource'', ''CDBDatasource'']"
    unfolding sb by (simp add: client_key_def demo_def demo_upperCase_def upper_char_def)
  ultimately have b: "testDatasource ?b =
      ([''CVMDatasource'', ''CDBDatasource''], Inl (ClientError ''first''))"
    by (simp only:)
  have na: "\<forall>c \<in> set [?a1, ?a2]. \<forall>e. c_testDatasource c \<noteq> Throws e"
    by (simp add: demo_client_def)
  have ra: "\<exists>c \<in> set [?a1, ?a2]. \<exists>t e. c_testDatasource c = Returns (Rejected t e)"
    by (simp add: demo_client_def)
  from testDatasource_failure_propagates [OF ha, of "[]" ?a1 "[]" "ClientError ''x''"] na
  have "fst (testDatasource ?a) = map (client_key ?a) (getSelectedServices ?a)"
    by blast
  moreover have "map (client_key ?a) (getSelectedServices ?a) =
      [''CVMDatasource'', ''CDBDatasource'']"
    unfolding sa by (simp add: client_key_def demo_def demo_upperCase_def upper_char_def)
  ultimately have a1: "fst (testDatasource ?a) = [''CVMDatasource'', ''CDBDatasource'']"
    by (simp only:)
  from testDatasource_failure_propagates [OF ha, of "[]" ?a1 "[]" "ClientError ''x''"] na ra
  have "\<exists>t e. snd (testDatasource ?a) = Inr (Rejected t e)
      \<and> Returns (Rejected t e) \<in> c_testDatasource ` set [?a1, ?a2]
      \<and> (\<forall>t' e'. Returns (Rejected t' e') \<in> c_testDatasource ` set [?a1, ?a2] \<longrightarrow> t \<le> t')"
    by blast
  then have a2: "\<exists>t e. snd (testDatasource ?a) = Inr (Rejected t e) \<and> t = 1
      \<and> e = ClientError ''connection refused''"
    by (auto simp: demo_client_def)
  from a1 a2 have "\<exists>t e. testDatasource ?a = ([''CVMDatasource'', ''CDBDatasource''], Inr (Rejected t e))
      \<and> t = 1 \<and> e = ClientError ''connection refused''"
    by (cases "testDatasource ?a") auto
  with b show ?thesis by blast
qed

section \<open>Template variable queries\<close>

text \<open>
  C8 as stated fails in its last part: with the namespace and the action keys both present
  and the namespace resolving to a service, an action whose value is the empty string is
  falsy, so \<open>metricFindQuery\<close> resolves to the empty list and delegates to no client.
\<close>

theorem metricFindQuery_empty_action_counterexample:
  "map_of (ParseMetricQuery
       (demo [] [(''CVMDatasource'', demo_client ''cvm'' Falsy Falsy)]) ''Namespace=QCE/CVM&Action='')
     ''namespace'' = Some (Str ''QCE/CVM'')
   \<and> map_of (ParseMetricQuery
       (demo [] [(''CVMDatasource'', demo_client ''cvm'' Falsy Falsy)]) ''Namespace=QCE/CVM&Action='')
     ''action'' = Some (Str [])
   \<and> GetServiceFromNamespace
       (demo [] [(''CVMDatasource'', demo_client ''cvm'' Falsy Falsy)]) (Str ''QCE/CVM'') = Str ''cvm''
   \<and> metricFindQuery
       (demo [] [(''CVMDatasource'', demo_client ''cvm'' Falsy Falsy)]) ''Namespace=QCE/CVM&Action=''
     = ([], Inr (Fulfilled 0 []))"
  by (simp add: metricFindQuery_def demo_defs js_or_def promise_resolve_def)

text \<open>
  C8, amended. When the parsed mapping is empty, or has no namespace key, or has no action
  key, or its namespace resolves to no service, \<open>metricFindQuery\<close> resolves to the empty
  list, delegating to no client. When the namespace and the action are both truthy (present
  and not empty), the namespace resolves and the pool holds the client of the resolved
  service, exactly that one client is delegated to, and its promise is returned as it is
  (the empty list when it returns a falsy value). In no case does the result depend on the
  configuration of enabled services.
\<close>

theorem metricFindQuery_routing:
  assumes "qs = ParseMetricQuery this q"
    and "svc = GetServiceFromNamespace this (js_or (js_get qs ''namespace'') (Str []))"
  shows "(qs = [] \<or> map_of qs ''namespace'' = None \<or> map_of qs ''action'' = None \<or> \<not> truthy svc
            \<longrightarrow> metricFindQuery this q = ([], Inr (Fulfilled 0 [])))
       \<and> (truthy (js_get qs ''namespace'') \<and> truthy (js_get qs ''action'') \<and> truthy svc
            \<and> client_of this svc = Some c
            \<longrightarrow> svc = GetServiceFromNamespace this (js_get qs ''namespace'')
              \<and> metricFindQuery this q =
                  ([client_key this svc],
                   (case c_metricFindQuery c qs of
                      Throws e \<Rightarrow> Inl e
                    | Falsy \<Rightarrow> Inr (Fulfilled 0 [])
                    | Returns result \<Rightarrow> Inr result)))
       \<and> metricFindQuery (this\<lparr>jsonData := cfg\<rparr>) q = metricFindQuery this q"
proof (intro conjI impI)
  assume "qs = [] \<or> map_of qs ''namespace'' = None \<or> map_of qs ''action'' = None \<or> \<not> truthy svc"
  then have "qs = [] \<or> \<not> truthy (js_get qs ''namespace'') \<or> \<not> truthy (js_get qs ''action'')
      \<or> \<not> truthy svc"
    by (auto simp: js_get_def)
  then show "metricFindQuery this q = ([], Inr (Fulfilled 0 []))"
    using assms by (auto simp: metricFindQuery_def Let_def promise_resolve_def)
next
  assume a: "truthy (js_get qs ''namespace'') \<and> truthy (js_get qs ''action'') \<and> truthy svc
            \<and> client_of this svc = Some c"
  then show "svc = GetServiceFromNamespace this (js_get qs ''namespace'')"
    using assms by (simp add: js_or_def)
  from a have "qs \<noteq> []" by (auto simp: js_get_def)
  with a show "metricFindQuery this q =
                  ([client_key this svc],
                   (case c_metricFindQuery c qs of
                      Throws e \<Rightarrow> Inl e
                    | Falsy \<Rightarrow> Inr (Fulfilled 0 [])
                    | Returns result \<Rightarrow> Inr result))"
    using assms unfolding metricFindQuery_def promise_resolve_def Let_def by simp
next
  have k: "client_of (this\<lparr>jsonData := cfg\<rparr>) = client_of this"
    "client_key (this\<lparr>jsonData := cfg\<rparr>) = client_key this"
    by (simp_all add: fun_eq_iff client_of_def client_key_def)
  show "metricFindQuery (this\<lparr>jsonData := cfg\<rparr>) q = metricFindQuery this q"
    unfolding metricFindQuery_def k by simp
qed

theorem metricFindQuery_routing_witness:
  "metricFindQuery (demo [] [(''CVMDatasource'', demo_client ''cvm'' Falsy Falsy)])
       ''Namespace=QCE/CVM'' = ([], Inr (Fulfilled 0 []))
   \<and> metricFindQuery (demo [] [(''CVMDatasource'', demo_client ''cvm'' Falsy Falsy)])
       ''Namespace=QCE/CVM&Action=DescribeInstances''
       = ([''CVMDatasource''], Inr (Fulfilled 1 [''cvm'']))
   \<and> metricFindQuery (demo [(''cdb'', Bool True)] [(''CVMDatasource'', demo_client ''cvm'' Falsy Falsy)])
       ''Namespace=QCE/CVM&Action=DescribeInstances''
       = ([''CVMDatasource''], Inr (Fulfilled 1 [''cvm'']))"
proof -
  let ?c = "demo_client ''cvm'' Falsy Falsy"
  let ?d = "demo [] [(''CVMDatasource'', ?c)]"
  let ?q1 = "''Namespace=QCE/CVM''"
  let ?q2 = "''Namespace=QCE/CVM&Action=DescribeInstances''"
  let ?qs2 = "[(''namespace'', Str ''QCE/CVM''), (''action'', Str ''DescribeInstances'')]"
  have p1: "[(''namespace'', Str ''QCE/CVM'')] = ParseMetricQuery ?d ?q1"
    by (simp add: demo_def demo_parse_def)
  have p2: "?qs2 = ParseMetricQuery ?d ?q2"
    by (simp add: demo_def demo_parse_def)
  have s: "Str ''cvm'' = GetServiceFromNamespace ?d
      (js_or (js_get [(''namespace'', Str ''QCE/CVM'')] ''namespace'') (Str []))"
    by (simp add: demo_defs js_or_def)
  have s2: "Str ''cvm'' = GetServiceFromNamespace ?d (js_or (js_get ?qs2 ''namespace'') (Str []))"
    by (simp add: demo_defs js_or_def)
  have h1: "map_of [(''namespace'', Str ''QCE/CVM'')] ''action'' = None" by simp
  have h2: "truthy (js_get ?qs2 ''namespace'') \<and> truthy (js_get ?qs2 ''action'')
      \<and> truthy (Str ''cvm'') \<and> client_of ?d (Str ''cvm'') = Some ?c"
    by (simp add: demo_defs)
  have e: "?d\<lparr>jsonData := [(''cdb'', Bool True)]\<rparr> =
      demo [(''cdb'', Bool True)] [(''CVMDatasource'', ?c)]"
    by (simp add: demo_def)
  from metricFindQuery_routing [OF p1 s, of ?c "[(''cdb'', Bool True)]"]
    metricFindQuery_routing [OF p2 s2, of ?c "[(''cdb'', Bool True)]"] h1 h2 e
  show ?thesis
    by (simp add: demo_defs)
qed

section \<open>The heap during a dispatch\<close>

lemma lookup_append: "a < length h \<Longrightarrow> lookup (h @ ext) a = lookup h a"
  by (simp add: lookup_def nth_append)

lemma lookup_lt: "lookup h a = Some v \<Longrightarrow> a < length h"
  by (simp add: lookup_def split: if_splits)

lemma lookup_new: "lookup (h @ [v]) (length h) = Some v"
  by (simp add: lookup_def)

lemma target_at_lt: "target_at h t = Some x \<Longrightarrow> t < length h"
  by (auto simp: target_at_def dest: lookup_lt split: option.splits obj.splits)

lemma target_at_append: "t < length h \<Longrightarrow> target_at (h @ ext) t = target_at h t"
  by (simp add: target_at_def lookup_append)

lemma target_at_append_Some: "target_at h t = Some x \<Longrightarrow> target_at (h @ ext) t = Some x"
  by (simp add: target_at_append target_at_lt)

lemma target_at_new: "target_at (h @ [TargetObj x]) (length h) = Some x"
  by (simp add: target_at_def lookup_new)

lemma elements_append: "ta < length h \<Longrightarrow> elements (h @ ext) ta = elements h ta"
  by (simp add: elements_def lookup_append)

lemma clone_elems_spec:
  assumes "list_all (\<lambda>t. target_at h t \<noteq> None) ts"
    and "\<forall>(t, t') \<in> set memo.
           target_at h t' = target_at h t \<and> t < length h \<and> n \<le> t' \<and> t' < length h"
    and "n \<le> length h"
    and "clone_elems h memo ts = (h', ts')"
  shows "(\<exists>ext. h' = h @ ext)
       \<and> map (target_at h') ts' = map (target_at h) ts
       \<and> (\<forall>t' \<in> set ts'. n \<le> t' \<and> t' < length h')"
  using assms
proof (induction ts arbitrary: h memo h' ts')
  case Nil
  then show ?case by simp
next
  case (Cons t ts)
  from Cons.prems(1) obtain x where x: "target_at h t = Some x"
    and all: "list_all (\<lambda>t. target_at h t \<noteq> None) ts" by auto
  from x have lk: "lookup h t = Some (TargetObj x)"
    by (auto simp: target_at_def split: option.splits obj.splits)
  show ?case
  proof (cases "map_of memo t")
    case (Some t1)
    then have mem: "(t, t1) \<in> set memo" by (rule map_of_SomeD)
    obtain h2 ts2 where rec: "clone_elems h memo ts = (h2, ts2)" by fastforce
    with Cons.prems(4) Some have eq: "h' = h2" "ts' = t1 # ts2" by auto
    from Cons.IH [OF all Cons.prems(2) Cons.prems(3) rec]
    obtain ext where ext: "h2 = h @ ext"
      and m: "map (target_at h2) ts2 = map (target_at h) ts"
      and f: "\<forall>t' \<in> set ts2. n \<le> t' \<and> t' < length h2" by blast
    from mem Cons.prems(2) have t1: "target_at h t1 = target_at h t" "n \<le> t1" "t1 < length h"
      by auto
    then have "target_at h2 t1 = target_at h t"
      by (simp add: ext target_at_append)
    with ext m f t1 show ?thesis
      by (auto simp: eq)
  next
    case None
    let ?h1 = "h @ [TargetObj x]"
    let ?memo = "(t, length h) # memo"
    obtain h2 ts2 where rec: "clone_elems ?h1 ?memo ts = (h2, ts2)" by fastforce
    with Cons.prems(4) None lk have eq: "h' = h2" "ts' = length h # ts2"
      by (auto simp: alloc_def)
    have all1: "list_all (\<lambda>t. target_at ?h1 t \<noteq> None) ts"
      using all by (auto simp: list_all_iff target_at_append_Some)
    have memo1: "\<forall>(t, t') \<in> set ?memo.
        target_at ?h1 t' = target_at ?h1 t \<and> t < length ?h1 \<and> n \<le> t' \<and> t' < length ?h1"
      using Cons.prems(2) Cons.prems(3) x target_at_lt [OF x]
      by (auto simp: target_at_new target_at_append_Some target_at_append)
    have n1: "n \<le> length ?h1" using Cons.prems(3) by simp
    from Cons.IH [OF all1 memo1 n1 rec]
    obtain ext where ext: "h2 = ?h1 @ ext"
      and m: "map (target_at h2) ts2 = map (target_at ?h1) ts"
      and f: "\<forall>t' \<in> set ts2. n \<le> t' \<and> t' < length h2" by blast
    have m': "map (target_at ?h1) ts = map (target_at h) ts"
      using all by (auto simp: list_all_iff target_at_append_Some)
    have "target_at h2 (length h) = Some x"
      unfolding ext by (rule target_at_append_Some) (rule target_at_new)
    with ext m m' f x Cons.prems(3) show ?thesis
      by (auto simp: eq)
  qed
qed

lemma map_filter_all_Some:
  "list_all (\<lambda>t. f t \<noteq> None) ts \<Longrightarrow> map f ts = map Some (List.map_filter f ts)"
  by (induction ts) (auto simp: List.map_filter_simps)

lemma map_filter_cong_map:
  "map f ts = map g us \<Longrightarrow> List.map_filter f ts = List.map_filter g us"
proof -
  assume "map f ts = map g us"
  then have "map the (filter (\<lambda>x. x \<noteq> None) (map f ts)) = map the (filter (\<lambda>x. x \<noteq> None) (map g us))"
    by simp
  then show ?thesis
    by (simp add: List.map_filter_def filter_map comp_def)
qed

lemma map_filter_filter:
  "List.map_filter f (filter (\<lambda>t. case f t of Some x \<Rightarrow> P x | None \<Rightarrow> False) ts) =
     filter P (List.map_filter f ts)"
  by (induction ts) (auto simp: List.map_filter_simps split: option.splits)

lemma filter_matches_empty:
  "map f ts = map Some xs \<Longrightarrow>
   filter (\<lambda>t. case f t of Some x \<Rightarrow> P x | None \<Rightarrow> False) ts = [] \<longleftrightarrow> filter P xs = []"
proof (induction ts arbitrary: xs)
  case Nil
  then show ?case by simp
next
  case (Cons t ts)
  then obtain x xs' where "xs = x # xs'" by (cases xs) auto
  with Cons show ?case by auto
qed

lemma cloneDeep_spec:
  assumes wf: "wf_request h a" and rd: "read_request h a = Some req"
    and cl: "cloneDeep h a = (h1, a')"
  shows "\<exists>ext ta' ts'. h1 = h @ ext
       \<and> lookup h1 a' = Some (OptionsObj ta' (rest req)) \<and> lookup h1 ta' = Some (ArrayObj ts')
       \<and> map (target_at h1) ts' = map Some (targets req)
       \<and> length h \<le> ta' \<and> ta' < a' \<and> a' < length h1
       \<and> (\<forall>t \<in> set ts'. length h \<le> t \<and> t < ta')"
proof -
  from wf obtain ta p ts where a: "lookup h a = Some (OptionsObj ta p)"
    and ta: "lookup h ta = Some (ArrayObj ts)"
    and all: "list_all (\<lambda>t. target_at h t \<noteq> None) ts"
    by (auto simp: wf_request_def split: option.splits obj.splits)
  from rd a ta have req: "req = \<lparr>targets = List.map_filter (target_at h) ts, rest = p\<rparr>"
    by (simp add: read_request_def array_targets_def elements_def)
  obtain h' ts' where ce: "clone_elems h [] ts = (h', ts')" by fastforce
  from clone_elems_spec [OF all _ _ ce, of "length h"]
  obtain ext where ext: "h' = h @ ext"
    and m: "map (target_at h') ts' = map (target_at h) ts"
    and f: "\<forall>t' \<in> set ts'. length h \<le> t' \<and> t' < length h'" by auto
  from cl a ta ce have h1: "h1 = h' @ [ArrayObj ts', OptionsObj (length h') p]"
    and a': "a' = Suc (length h')"
    by (auto simp: cloneDeep_def alloc_def)
  have "map (target_at h1) ts' = map (target_at h') ts'"
    using f by (auto simp: h1 target_at_append)
  also have "\<dots> = map Some (targets req)"
    by (simp add: m req map_filter_all_Some [OF all])
  finally have ms: "map (target_at h1) ts' = map Some (targets req)" .
  have l1: "lookup h1 a' = Some (OptionsObj (length h') (rest req))"
    by (simp add: h1 a' lookup_def req nth_append)
  have l2: "lookup h1 (length h') = Some (ArrayObj ts')"
    by (simp add: h1 lookup_def nth_append)
  have "h1 = h @ (ext @ [ArrayObj ts', OptionsObj (length h') p])"
    by (simp add: h1 ext)
  moreover have "length h \<le> length h'" by (simp add: ext)
  moreover have "length h' < a'" "a' < length h1" by (simp_all add: a' h1)
  ultimately show ?thesis
    using l1 l2 ms f by blast
qed

lemma query_service_unfold:
  assumes wf: "wf_request (heap st) a" and rd: "read_request (heap st) a = Some req"
  shows "\<exists>ext a'. query_service this a svc st = branch_result this req svc st (heap st @ ext) a'
       \<and> (\<forall>x \<in> set (reachable (heap st @ ext) a'). length (heap st) \<le> x \<and> x < length (heap st @ ext))
       \<and> read_request (heap st @ ext) a' = Some (fragment req svc)"
proof -
  let ?H = "heap st"
  obtain h1 a' where cl: "cloneDeep ?H a = (h1, a')" by fastforce
  from cloneDeep_spec [OF wf rd cl]
  obtain ext ta' ts' where h1: "h1 = ?H @ ext"
    and la: "lookup h1 a' = Some (OptionsObj ta' (rest req))"
    and lt: "lookup h1 ta' = Some (ArrayObj ts')"
    and ms: "map (target_at h1) ts' = map Some (targets req)"
    and ord: "length ?H \<le> ta'" "ta' < a'" "a' < length h1"
    and fr: "\<forall>t \<in> set ts'. length ?H \<le> t \<and> t < ta'" by blast
  let ?P = "\<lambda>x. target_service x = Some svc"
  let ?fs = "filter (matchesProperty h1 svc) ts'"
  let ?h2 = "h1 @ [ArrayObj ?fs]"
  let ?h3 = "?h2[a' := OptionsObj (length h1) (rest req)]"
  have mp: "matchesProperty h1 svc = (\<lambda>t. case target_at h1 t of Some x \<Rightarrow> ?P x | None \<Rightarrow> False)"
    by (simp add: fun_eq_iff matchesProperty_def)
  have lf: "lodash_filter h1 ta' svc = (?h2, length h1)"
    by (simp add: lodash_filter_def alloc_def elements_def lt)
  have el: "elements ?h3 (length h1) = ?fs"
    using ord by (simp add: elements_def lookup_def nth_append)
  have same: "\<forall>t \<in> set ts'. target_at ?h3 t = target_at h1 t"
    using fr ord by (auto simp: target_at_def lookup_def nth_append)
  have "List.map_filter (target_at ?h3) ?fs = List.map_filter (target_at h1) ?fs"
    by (rule map_filter_cong_map) (simp add: same)
  also have "\<dots> = filter ?P (List.map_filter (target_at h1) ts')"
    unfolding mp by (rule map_filter_filter)
  also have "List.map_filter (target_at h1) ts' = targets req"
    using map_filter_cong_map [OF ms] by (simp add: List.map_filter_def comp_def)
  finally have at: "array_targets ?h3 (length h1) = targets (fragment req svc)"
    by (simp add: array_targets_def el fragment_def)
  have emp: "?fs = [] \<longleftrightarrow> targets (fragment req svc) = []"
    unfolding mp fragment_def using filter_matches_empty [OF ms, of ?P] by simp
  have fg: "\<lparr>targets = targets (fragment req svc), rest = rest req\<rparr> = fragment req svc"
    by (simp add: fragment_def)
  have h3: "?h3 = ?H @ (ext @ [ArrayObj ?fs])[a' - length ?H := OptionsObj (length h1) (rest req)]"
    using ord by (simp add: h1 list_update_append)
  let ?ext = "(ext @ [ArrayObj ?fs])[a' - length ?H := OptionsObj (length h1) (rest req)]"
  have la3: "lookup ?h3 a' = Some (OptionsObj (length h1) (rest req))"
    using ord by (simp add: lookup_def)
  have run: "query_service this a svc st = branch_result this req svc st ?h3 a'"
  proof (cases "targets (fragment req svc) = []")
    case True
    with emp have "?fs = []" by simp
    with True el show ?thesis
      by (simp add: query_service_def branch_result_def cl la lf)
  next
    case False
    with emp have "?fs \<noteq> []" by simp
    with False el show ?thesis
      by (simp add: query_service_def branch_result_def cl la lf at fg Let_def
          split: option.splits ret.splits)
  qed
  have rc: "set (reachable ?h3 a') = insert a' (insert (length h1) (set ?fs))"
    by (simp add: reachable_def la3 el)
  have reach: "\<forall>x \<in> set (reachable ?h3 a'). length ?H \<le> x \<and> x < length ?h3"
    unfolding rc using ord fr by auto
  have rr: "read_request ?h3 a' = Some (fragment req svc)"
    by (simp add: read_request_def la3 at fg)
  from run reach rr show ?thesis
    unfolding h3 by blast
qed

lemma reachable_self: "a \<in> set (reachable h a)"
  by (simp add: reachable_def split: option.splits obj.splits)

lemma reachable_append:
  assumes "\<forall>x \<in> set (reachable h a). x < length h"
  shows "reachable (h @ ext) a = reachable h a"
proof -
  from assms reachable_self [of a h] have a: "a < length h" by blast
  show ?thesis
  proof (cases "lookup h a")
    case None
    with a show ?thesis by (simp add: lookup_def)
  next
    case (Some v)
    show ?thesis
    proof (cases v)
      case (OptionsObj ta p)
      with Some assms have "ta < length h" by (simp add: reachable_def)
      with Some OptionsObj a show ?thesis
        by (simp add: reachable_def lookup_append elements_append)
    qed (use Some a in \<open>simp_all add: reachable_def lookup_append\<close>)
  qed
qed

lemma array_targets_append:
  assumes "ta < length h" and "\<forall>t \<in> set (elements h ta). t < length h"
  shows "array_targets (h @ ext) ta = array_targets h ta"
proof -
  have "map (target_at (h @ ext)) (elements h ta) = map (target_at h) (elements h ta)"
    using assms(2) by (simp add: target_at_append)
  then have "List.map_filter (target_at (h @ ext)) (elements h ta) =
      List.map_filter (target_at h) (elements h ta)"
    by (rule map_filter_cong_map)
  then show ?thesis
    by (simp add: array_targets_def elements_append [OF assms(1)])
qed

lemma read_request_append:
  assumes "\<forall>x \<in> set (reachable h a). x < length h"
  shows "read_request (h @ ext) a = read_request h a"
proof -
  from assms reachable_self [of a h] have a: "a < length h" by blast
  show ?thesis
  proof (cases "lookup h a")
    case None
    with a show ?thesis by (simp add: lookup_def)
  next
    case (Some v)
    show ?thesis
    proof (cases v)
      case (OptionsObj ta p)
      with Some assms have "ta < length h" and "\<forall>t \<in> set (elements h ta). t < length h"
        by (simp_all add: reachable_def)
      with Some OptionsObj a show ?thesis
        by (simp add: read_request_def lookup_append array_targets_append)
    qed (use Some a in \<open>simp_all add: read_request_def lookup_append\<close>)
  qed
qed

lemma wf_request_reachable:
  assumes "wf_request h a"
  shows "\<forall>x \<in> set (reachable h a). x < length h"
proof -
  from assms obtain ta p ts where a: "lookup h a = Some (OptionsObj ta p)"
    and ta: "lookup h ta = Some (ArrayObj ts)"
    and all: "list_all (\<lambda>t. target_at h t \<noteq> None) ts"
    by (auto simp: wf_request_def split: option.splits obj.splits)
  from all have "\<forall>t \<in> set ts. t < length h"
    by (auto simp: list_all_iff dest: target_at_lt)
  with a ta show ?thesis
    by (auto simp: reachable_def elements_def dest: lookup_lt)
qed

lemma wf_request_append:
  assumes "wf_request h a"
  shows "wf_request (h @ ext) a"
proof -
  from assms obtain ta p ts where a: "lookup h a = Some (OptionsObj ta p)"
    and ta: "lookup h ta = Some (ArrayObj ts)"
    and all: "list_all (\<lambda>t. target_at h t \<noteq> None) ts"
    by (auto simp: wf_request_def split: option.splits obj.splits)
  from all have "list_all (\<lambda>t. target_at (h @ ext) t \<noteq> None) ts"
    by (auto simp: list_all_iff target_at_append_Some)
  with a ta show ?thesis
    by (simp add: wf_request_def lookup_append lookup_lt)
qed

lemma clones_separate_append:
  assumes "clones_separate n H cs"
  shows "clones_separate n (H @ ext) cs"
proof -
  from assms have r: "\<forall>i \<in> set cs. \<forall>x \<in> set (reachable H (arg i)). x < length H"
    by (simp add: clones_separate_def)
  then have same: "map (\<lambda>i. reachable (H @ ext) (arg i)) cs = map (\<lambda>i. reachable H (arg i)) cs"
    by (simp add: reachable_append)
  have "(\<forall>x \<in> set (reachable (H @ ext) (arg i)). n \<le> x \<and> x < length (H @ ext))
      \<and> read_request (H @ ext) (arg i) = Some (seen i)" if i: "i \<in> set cs" for i
  proof -
    from r i have lt: "\<forall>x \<in> set (reachable H (arg i)). x < length H" by blast
    from assms i have "(\<forall>x \<in> set (reachable H (arg i)). n \<le> x \<and> x < length H)
        \<and> read_request H (arg i) = Some (seen i)"
      by (simp add: clones_separate_def)
    then show ?thesis
      by (auto simp: reachable_append [OF lt] read_request_append [OF lt])
  qed
  moreover from assms
  have "sorted_wrt (\<lambda>I J. \<forall>x \<in> set I. \<forall>y \<in> set J. x < y) (map (\<lambda>i. reachable H (arg i)) cs)"
    by (simp add: clones_separate_def)
  ultimately show ?thesis
    unfolding clones_separate_def same by blast
qed

lemma clones_separate_snoc:
  assumes "clones_separate n H cs" and "n \<le> length H"
    and "\<forall>x \<in> set (reachable (H @ ext) (arg i)). length H \<le> x \<and> x < length (H @ ext)"
    and "read_request (H @ ext) (arg i) = Some (seen i)"
  shows "clones_separate n (H @ ext) (cs @ [i])"
proof -
  from clones_separate_append [OF assms(1), of ext]
  have old: "clones_separate n (H @ ext) cs" .
  from assms(1) have r: "\<forall>j \<in> set cs. \<forall>x \<in> set (reachable H (arg j)). x < length H"
    by (simp add: clones_separate_def)
  have below: "\<forall>I \<in> set (map (\<lambda>i. reachable (H @ ext) (arg i)) cs).
      \<forall>x \<in> set I. \<forall>y \<in> set (reachable (H @ ext) (arg i)). x < y"
  proof (intro ballI)
    fix I x y
    assume "I \<in> set (map (\<lambda>i. reachable (H @ ext) (arg i)) cs)" and x: "x \<in> set I"
      and y: "y \<in> set (reachable (H @ ext) (arg i))"
    then obtain j where j: "j \<in> set cs" and I: "I = reachable (H @ ext) (arg j)" by auto
    from r j have lt: "\<forall>x \<in> set (reachable H (arg j)). x < length H" by blast
    with x I have "x < length H" by (simp add: reachable_append [OF lt])
    moreover from assms(3) y have "length H \<le> y" by blast
    ultimately show "x < y" by simp
  qed
  have new: "(\<forall>x \<in> set (reachable (H @ ext) (arg i)). n \<le> x \<and> x < length (H @ ext))
      \<and> read_request (H @ ext) (arg i) = Some (seen i)"
    using assms(2-4) by auto
  from old have o1: "\<forall>j \<in> set cs. (\<forall>x \<in> set (reachable (H @ ext) (arg j)). n \<le> x \<and> x < length (H @ ext))
      \<and> read_request (H @ ext) (arg j) = Some (seen j)"
    and o2: "sorted_wrt (\<lambda>I J. \<forall>x \<in> set I. \<forall>y \<in> set J. x < y)
               (map (\<lambda>i. reachable (H @ ext) (arg i)) cs)"
    by (simp_all add: clones_separate_def)
  have "sorted_wrt (\<lambda>I J. \<forall>x \<in> set I. \<forall>y \<in> set J. x < y)
               (map (\<lambda>i. reachable (H @ ext) (arg i)) (cs @ [i]))"
    using o2 below by (simp add: sorted_wrt_append)
  with o1 new show ?thesis
    unfolding clones_separate_def by simp
qed

lemma query_service_step:
  assumes wf: "wf_request (heap st) a" and rd: "read_request (heap st) a = Some req"
    and inv: "clones_separate n (heap st) (calls st)" and n: "n \<le> length (heap st)"
    and run: "query_service this a svc st = (st', r)"
  shows "branch this req svc (unheap st) = (unheap st', r)
       \<and> (\<exists>ext. heap st' = heap st @ ext)
       \<and> clones_separate n (heap st') (calls st')"
proof -
  from query_service_unfold [OF wf rd, of this svc]
  obtain ext a' where q: "query_service this a svc st = branch_result this req svc st (heap st @ ext) a'"
    and fresh: "\<forall>x \<in> set (reachable (heap st @ ext) a'). length (heap st) \<le> x \<and> x < length (heap st @ ext)"
    and rr: "read_request (heap st @ ext) a' = Some (fragment req svc)" by blast
  let ?i = "\<lparr>callee = client_key this svc, arg = a', seen = fragment req svc\<rparr>"
  have old: "clones_separate n (heap st @ ext) (calls st)"
    by (rule clones_separate_append [OF inv])
  have new: "clones_separate n (heap st @ ext) (calls st @ [?i])"
    by (rule clones_separate_snoc [OF inv n]) (use fresh rr in simp_all)
  from run q have res: "branch_result this req svc st (heap st @ ext) a' = (st', r)" by simp
  show ?thesis
  proof (cases "targets (fragment req svc) = []")
    case True
    with res old show ?thesis
      by (auto simp: branch_result_def branch_def unheap_def)
  next
    case False
    show ?thesis
    proof (cases "client_of this svc")
      case None
      with False res old show ?thesis
        by (auto simp: branch_result_def branch_def unheap_def)
    next
      case (Some c)
      with False res new show ?thesis
        by (cases "c_query c (fragment req svc)")
           (auto simp: branch_result_def branch_def unheap_def Let_def)
    qed
  qed
qed

lemma forEach_query_sim:
  assumes "wf_request (heap st) a" and "read_request (heap st) a = Some req"
    and "clones_separate n (heap st) (calls st)" and "n \<le> length (heap st)"
    and "forEach svcs (query_service this a) st = (st', r)"
  shows "forEach svcs (branch this req) (unheap st) = (unheap st', r)
       \<and> (\<exists>ext. heap st' = heap st @ ext)
       \<and> clones_separate n (heap st') (calls st')"
  using assms
proof (induction svcs arbitrary: st)
  case Nil
  then show ?case by auto
next
  case (Cons svc svcs)
  obtain st1 r1 where s1: "query_service this a svc st = (st1, r1)" by fastforce
  from query_service_step [OF Cons.prems(1-4) s1]
  obtain ext where b: "branch this req svc (unheap st) = (unheap st1, r1)"
    and h: "heap st1 = heap st @ ext"
    and c: "clones_separate n (heap st1) (calls st1)" by blast
  show ?case
  proof (cases r1)
    case (Some e)
    with s1 Cons.prems(5) have "st' = st1" "r = Some e" by auto
    with b h c Some show ?thesis by auto
  next
    case None
    with s1 Cons.prems(5) have rec: "forEach svcs (query_service this a) st1 = (st', r)" by simp
    have wf1: "wf_request (heap st1) a"
      unfolding h by (rule wf_request_append [OF Cons.prems(1)])
    have rd1: "read_request (heap st1) a = Some req"
      unfolding h using Cons.prems(2) read_request_append [OF wf_request_reachable [OF Cons.prems(1)]]
      by simp
    have n1: "n \<le> length (heap st1)" using Cons.prems(4) by (simp add: h)
    from Cons.IH [OF wf1 rd1 c n1 rec] b None h show ?thesis
      by auto
  qed
qed

section \<open>The dispatch as the clients see it\<close>

lemma branch_skip:
  "targets (fragment req svc) = [] \<Longrightarrow> branch this req svc st = (st, None)"
  by (simp add: branch_def)

lemma branch_answer:
  assumes "targets (fragment req svc) \<noteq> []" and "client_answer this req svc = Some r"
  shows "branch this req svc st =
     (case r of
        Throws e \<Rightarrow> (st\<lparr>calls := calls st @ [(client_key this svc, fragment req svc)]\<rparr>, Some e)
      | Falsy \<Rightarrow> (st\<lparr>calls := calls st @ [(client_key this svc, fragment req svc)]\<rparr>, None)
      | Returns p \<Rightarrow>
          (st\<lparr>promises := promises st @ [p],
              calls := calls st @ [(client_key this svc, fragment req svc)]\<rparr>, None))"
  using assms
  by (auto simp: branch_def client_answer_def Let_def split: option.splits ret.splits)

lemma branch_no_client:
  assumes "targets (fragment req svc) \<noteq> []" and "client_answer this req svc = None"
  shows "branch this req svc st = (st, Some TypeError)"
  using assms by (auto simp: branch_def client_answer_def split: option.splits)

lemma forEach_branch_returns:
  "map (client_answer this req) (filter (\<lambda>svc. targets (fragment req svc) \<noteq> []) svcs) = map Some rets \<Longrightarrow>
   \<forall>r \<in> set rets. \<forall>e. r \<noteq> Throws e \<Longrightarrow>
   forEach svcs (branch this req) st =
     (st\<lparr>promises := promises st @ returned rets,
         calls := calls st @ map (\<lambda>svc. (client_key this svc, fragment req svc))
                    (filter (\<lambda>svc. targets (fragment req svc) \<noteq> []) svcs)\<rparr>, None)"
proof (induction svcs arbitrary: rets st)
  case Nil
  then show ?case by simp
next
  case (Cons svc svcs)
  show ?case
  proof (cases "targets (fragment req svc) = []")
    case True
    with Cons.prems have "map (client_answer this req)
        (filter (\<lambda>svc. targets (fragment req svc) \<noteq> []) svcs) = map Some rets" by simp
    from Cons.IH [OF this Cons.prems(2)] True show ?thesis
      by (simp add: branch_skip)
  next
    case False
    with Cons.prems(1) obtain r rets' where rets: "rets = r # rets'"
      and r: "client_answer this req svc = Some r"
      and more: "map (client_answer this req)
        (filter (\<lambda>svc. targets (fragment req svc) \<noteq> []) svcs) = map Some rets'"
      by (cases rets) auto
    from Cons.prems(2) rets have nt: "\<forall>e. r \<noteq> Throws e"
      and nts: "\<forall>r \<in> set rets'. \<forall>e. r \<noteq> Throws e" by auto
    from nt show ?thesis
      by (cases r) (simp_all add: branch_answer [OF False r] Cons.IH [OF more nts] rets False)
  qed
qed

lemma forEach_branch_first_throw:
  "map (client_answer this req) (filter (\<lambda>svc. targets (fragment req svc) \<noteq> []) svcs)
     = map Some (pre @ Throws e # post) \<Longrightarrow>
   \<forall>r \<in> set pre. \<forall>e'. r \<noteq> Throws e' \<Longrightarrow>
   forEach svcs (branch this req) st =
     (st\<lparr>promises := promises st @ returned pre,
         calls := calls st @ map (\<lambda>svc. (client_key this svc, fragment req svc))
                    (take (Suc (length pre))
                       (filter (\<lambda>svc. targets (fragment req svc) \<noteq> []) svcs))\<rparr>, Some e)"
proof (induction svcs arbitrary: pre st)
  case Nil
  then show ?case by simp
next
  case (Cons svc svcs)
  note pr = Cons.prems and ih = Cons.IH
  show ?case
  proof (cases "targets (fragment req svc) = []")
    case True
    with pr have "map (client_answer this req)
        (filter (\<lambda>svc. targets (fragment req svc) \<noteq> []) svcs) = map Some (pre @ Throws e # post)"
      by simp
    from ih [OF this pr(2)] True show ?thesis
      by (simp add: branch_skip)
  next
    case False
    show ?thesis
    proof (cases pre)
      case Nil
      with pr(1) False have r: "client_answer this req svc = Some (Throws e)" by simp
      show ?thesis
        by (simp add: branch_answer [OF False r] Nil False)
    next
      case (Cons r pre')
      with pr(1) False have r: "client_answer this req svc = Some r"
        and more: "map (client_answer this req)
          (filter (\<lambda>svc. targets (fragment req svc) \<noteq> []) svcs) = map Some (pre' @ Throws e # post)"
        by simp_all
      from pr(2) Cons have nt: "\<forall>e. r \<noteq> Throws e"
        and nts: "\<forall>r \<in> set pre'. \<forall>e'. r \<noteq> Throws e'" by auto
      from nt show ?thesis
        by (cases r)
           (simp_all add: branch_answer [OF False r] ih [OF more nts] Cons False)
    qed
  qed
qed

lemma forEach_branch_calls:
  "\<exists>k. calls (fst (forEach svcs (branch this req) st)) =
     calls st @ map (\<lambda>svc. (client_key this svc, fragment req svc))
                  (take k (filter (\<lambda>svc. targets (fragment req svc) \<noteq> []) svcs))"
proof (induction svcs arbitrary: st)
  case Nil
  then show ?case by simp
next
  case (Cons svc svcs)
  let ?f = "\<lambda>svc. (client_key this svc, fragment req svc)"
  let ?act = "filter (\<lambda>svc. targets (fragment req svc) \<noteq> []) svcs"
  show ?case
  proof (cases "targets (fragment req svc) = []")
    case True
    with Cons.IH [of st] show ?thesis
      by (simp add: branch_skip)
  next
    case False
    then have act: "filter (\<lambda>svc. targets (fragment req svc) \<noteq> []) (svc # svcs) = svc # ?act"
      by simp
    show ?thesis
    proof (cases "client_answer this req svc")
      case None
      show ?thesis
        unfolding act by (rule exI [of _ 0]) (simp add: branch_no_client [OF False None])
    next
      case (Some r)
      show ?thesis
      proof (cases r)
        case (Throws e)
        show ?thesis
          unfolding act
          by (rule exI [of _ 1]) (simp add: branch_answer [OF False Some] Throws)
      next
        case Falsy
        let ?st = "st\<lparr>calls := calls st @ [?f svc]\<rparr>"
        from Cons.IH [of ?st] obtain k where
          "calls (fst (forEach svcs (branch this req) ?st)) = calls ?st @ map ?f (take k ?act)" ..
        then show ?thesis
          unfolding act
          by (intro exI [of _ "Suc k"]) (simp add: branch_answer [OF False Some] Falsy)
      next
        case (Returns p)
        let ?st' = "st\<lparr>promises := promises st @ [p], calls := calls st @ [?f svc]\<rparr>"
        from Cons.IH [of ?st'] obtain k where
          "calls (fst (forEach svcs (branch this req) ?st')) = calls ?st' @ map ?f (take k ?act)" ..
        then show ?thesis
          unfolding act
          by (intro exI [of _ "Suc k"]) (simp add: branch_answer [OF False Some] Returns)
      qed
    qed
  qed
qed

lemma branch_cong:
  assumes "fragment req svc = fragment req2 svc"
  shows "branch this req svc = branch this req2 svc"
  unfolding branch_def assms ..

lemma forEach_branch_cong:
  "\<forall>svc \<in> set svcs. fragment req svc = fragment req2 svc \<Longrightarrow>
   forEach svcs (branch this req) st = forEach svcs (branch this req2) st"
proof (induction svcs arbitrary: st)
  case Nil
  show ?case by simp
next
  case (Cons svc svcs)
  have b: "branch this req svc = branch this req2 svc"
    by (rule branch_cong) (use Cons.prems in simp)
  have ih: "forEach svcs (branch this req) s = forEach svcs (branch this req2) s" for s
    by (rule Cons.IH) (use Cons.prems in simp)
  show ?case
    unfolding forEach.simps b ih ..
qed

lemma query_sim:
  assumes wf: "wf_request h a" and rd: "read_request h a = Some req"
  shows "\<exists>st r ext. query this h a = (st, case r of Some e \<Rightarrow> Inl e | None \<Rightarrow> Inr (merged (promises st)))
       \<and> forEach (getSelectedServices this) (branch this req) \<lparr>promises = [], calls = []\<rparr>
           = (unheap st, r)
       \<and> heap st = h @ ext
       \<and> clones_separate (length h) (heap st) (calls st)"
proof -
  let ?init = "\<lparr>promises = [], calls = [], heap = h\<rparr> :: ('a, 'b, 'c) query_state"
  obtain st r where run: "forEach (getSelectedServices this) (query_service this a) ?init = (st, r)"
    by fastforce
  have i1: "wf_request (heap ?init) a" using wf by simp
  have i2: "read_request (heap ?init) a = Some req" using rd by simp
  have i3: "clones_separate (length h) (heap ?init) (calls ?init)"
    by (simp add: clones_separate_def)
  have i4: "length h \<le> length (heap ?init)" by simp
  from forEach_query_sim [OF i1 i2 i3 i4 run]
  obtain ext where "forEach (getSelectedServices this) (branch this req) (unheap ?init) = (unheap st, r)"
    and "heap st = h @ ext" and "clones_separate (length h) (heap st) (calls st)"
    by auto
  moreover have "unheap ?init = \<lparr>promises = [], calls = []\<rparr>"
    by (simp add: unheap_def)
  moreover have "query this h a = (st, case r of Some e \<Rightarrow> Inl e | None \<Rightarrow> Inr (merged (promises st)))"
    by (simp add: query_def run split: option.splits)
  ultimately show ?thesis by auto
qed

section \<open>The data query\<close>

lemma returned_mem: "p \<in> set (returned rets) \<longleftrightarrow> Returns p \<in> set rets"
  by (induction rets rule: returned.induct) auto

lemma returned_fulfilled:
  "returned (map (\<lambda>(t, xs). Returns (Fulfilled t (f xs))) txs) = map (\<lambda>(t, xs). Fulfilled t (f xs)) txs"
  by (induction txs) auto

lemma flatten_Arr: "flatten (map Arr xss) = concat xss"
  by (induction xss) auto

lemma merged_fulfilled:
  "merged (map (\<lambda>(t, xs). Fulfilled t (Arr xs)) txs) =
     Fulfilled (foldr max (map fst txs) 0) \<lparr>data = concat (map snd txs)\<rparr>"
proof (cases "txs = []")
  case True
  then show ?thesis by (simp add: merged_def promise_resolve_def)
next
  case False
  have "map (\<lambda>(t, xs). Arr xs) txs = map Arr (map snd txs)"
    by (simp add: split_def)
  then have "flatten (map (\<lambda>(t, xs). Arr xs) txs) = concat (map snd txs)"
    by (simp only: flatten_Arr)
  with False show ?thesis
    by (simp add: merged_def promise_all_fulfilled promise_then_def)
qed

lemma merged_rejected:
  assumes "Rejected t' e' \<in> set ps"
  shows "\<exists>t e. merged ps = Rejected t e \<and> Rejected t e \<in> set ps
           \<and> (\<forall>t' e'. Rejected t' e' \<in> set ps \<longrightarrow> t \<le> t')"
proof -
  from assms obtain t e where f: "first_rejected ps = Some (t, e)"
    using first_rejected_None [of ps] by (cases "first_rejected ps") auto
  from assms have "ps \<noteq> []" by auto
  with f have "merged ps = Rejected t e"
    by (simp add: merged_def promise_all_def promise_then_def)
  with f show ?thesis
    by (blast dest: first_rejected_Some first_rejected_least)
qed

lemma demo_heap_wf: "wf_request demo_heap 4"
  by code_simp

lemma demo_heap_reads: "read_request demo_heap 4 = Some demo_request"
  by code_simp

text \<open>
  C3. For a well-formed request \<open>req\<close>: the clients invoked are, in the order of the active
  services, clients of active services whose fragment is not empty (all of them up to the
  first one that throws); each is handed exactly the targets whose \<open>service\<close> field is its
  service, in their order, and never an empty list; a service \<open>svcB\<close> that is not active
  has none of its targets handed to any client; and a request that differs only in
  targets of services that are not active gives the same invocations and the same
  result, so nothing of those targets reaches the merged output.
\<close>

theorem query_partition:
  assumes "wf_request h a" and "read_request h a = Some req"
  shows "(\<exists>k. map (\<lambda>i. (callee i, seen i)) (calls (fst (query this h a))) =
              map (\<lambda>svc. (client_key this svc, fragment req svc))
                (take k (filter (\<lambda>svc. targets (fragment req svc) \<noteq> []) (getSelectedServices this))))
       \<and> (\<forall>i \<in> set (calls (fst (query this h a))).
             targets (seen i) \<noteq> []
             \<and> (\<exists>svc \<in> set (getSelectedServices this).
                   callee i = client_key this svc
                   \<and> targets (seen i) = filter (\<lambda>x. target_service x = Some svc) (targets req)
                   \<and> rest (seen i) = rest req))
       \<and> (svcB \<notin> set (getSelectedServices this)
             \<longrightarrow> (\<forall>i \<in> set (calls (fst (query this h a))).
                    \<forall>x \<in> set (targets (seen i)). target_service x \<noteq> Some svcB))
       \<and> (wf_request h2 a2 \<and> read_request h2 a2 = Some req2 \<and> rest req2 = rest req
            \<and> (\<forall>svc \<in> set (getSelectedServices this).
                  filter (\<lambda>x. target_service x = Some svc) (targets req2) =
                  filter (\<lambda>x. target_service x = Some svc) (targets req))
             \<longrightarrow> snd (query this h2 a2) = snd (query this h a)
                 \<and> map (\<lambda>i. (callee i, seen i)) (calls (fst (query this h2 a2))) =
                     map (\<lambda>i. (callee i, seen i)) (calls (fst (query this h a))))"
proof -
  let ?act = "filter (\<lambda>svc. targets (fragment req svc) \<noteq> []) (getSelectedServices this)"
  let ?init = "\<lparr>promises = [], calls = []\<rparr> :: ('c qres, string \<times> ('a, 'b) request) dispatch"
  from query_sim [OF assms, of this]
  obtain st r where q: "query this h a =
      (st, case r of Some e \<Rightarrow> Inl e | None \<Rightarrow> Inr (merged (promises st)))"
    and f: "forEach (getSelectedServices this) (branch this req) ?init = (unheap st, r)" by blast
  from forEach_branch_calls [of "getSelectedServices this" this req ?init] f
  obtain k where k: "map (\<lambda>i. (callee i, seen i)) (calls st) =
      map (\<lambda>svc. (client_key this svc, fragment req svc)) (take k ?act)"
    by (auto simp: unheap_def)
  have each: "targets (seen i) \<noteq> []
             \<and> (\<exists>svc \<in> set (getSelectedServices this).
                   callee i = client_key this svc
                   \<and> targets (seen i) = filter (\<lambda>x. target_service x = Some svc) (targets req)
                   \<and> rest (seen i) = rest req)" if i: "i \<in> set (calls st)" for i
  proof -
    from i have "(callee i, seen i) \<in> set (map (\<lambda>i. (callee i, seen i)) (calls st))" by force
    with k obtain svc where "svc \<in> set (take k ?act)"
      and c: "callee i = client_key this svc" and s: "seen i = fragment req svc" by auto
    then have "svc \<in> set ?act" by (blast dest: in_set_takeD)
    then have "svc \<in> set (getSelectedServices this)" and "targets (fragment req svc) \<noteq> []"
      by simp_all
    with c s show ?thesis
      by (auto simp: fragment_def)
  qed
  have c1: "\<exists>k. map (\<lambda>i. (callee i, seen i)) (calls (fst (query this h a))) =
              map (\<lambda>svc. (client_key this svc, fragment req svc)) (take k ?act)"
    using k by (auto simp: q)
  have c2: "\<forall>i \<in> set (calls (fst (query this h a))).
             targets (seen i) \<noteq> []
             \<and> (\<exists>svc \<in> set (getSelectedServices this).
                   callee i = client_key this svc
                   \<and> targets (seen i) = filter (\<lambda>x. target_service x = Some svc) (targets req)
                   \<and> rest (seen i) = rest req)"
    using each by (simp add: q)
  have c3: "svcB \<notin> set (getSelectedServices this)
             \<longrightarrow> (\<forall>i \<in> set (calls (fst (query this h a))).
                    \<forall>x \<in> set (targets (seen i)). target_service x \<noteq> Some svcB)"
  proof (intro impI ballI)
    fix i x
    assume nb: "svcB \<notin> set (getSelectedServices this)"
      and i: "i \<in> set (calls (fst (query this h a)))" and x: "x \<in> set (targets (seen i))"
    from i have "i \<in> set (calls st)" by (simp add: q)
    from each [OF this] obtain svc where "svc \<in> set (getSelectedServices this)"
      and "targets (seen i) = filter (\<lambda>x. target_service x = Some svc) (targets req)" by blast
    with x nb show "target_service x \<noteq> Some svcB" by auto
  qed
  have c4: "wf_request h2 a2 \<and> read_request h2 a2 = Some req2 \<and> rest req2 = rest req
            \<and> (\<forall>svc \<in> set (getSelectedServices this).
                  filter (\<lambda>x. target_service x = Some svc) (targets req2) =
                  filter (\<lambda>x. target_service x = Some svc) (targets req))
             \<longrightarrow> snd (query this h2 a2) = snd (query this h a)
                 \<and> map (\<lambda>i. (callee i, seen i)) (calls (fst (query this h2 a2))) =
                     map (\<lambda>i. (callee i, seen i)) (calls (fst (query this h a)))"
  proof
    assume a: "wf_request h2 a2 \<and> read_request h2 a2 = Some req2 \<and> rest req2 = rest req
            \<and> (\<forall>svc \<in> set (getSelectedServices this).
                  filter (\<lambda>x. target_service x = Some svc) (targets req2) =
                  filter (\<lambda>x. target_service x = Some svc) (targets req))"
    then have wf2: "wf_request h2 a2" and rd2: "read_request h2 a2 = Some req2" by simp_all
    from a have same: "\<forall>svc \<in> set (getSelectedServices this). fragment req2 svc = fragment req svc"
      by (simp add: fragment_def)
    from query_sim [OF wf2 rd2, of this]
    obtain st2 r2 where q2: "query this h2 a2 =
        (st2, case r2 of Some e \<Rightarrow> Inl e | None \<Rightarrow> Inr (merged (promises st2)))"
      and f2: "forEach (getSelectedServices this) (branch this req2) ?init = (unheap st2, r2)"
      by blast
    from f f2 forEach_branch_cong [OF same, of this ?init]
    have "unheap st2 = unheap st" and "r2 = r" by simp_all
    then show "snd (query this h2 a2) = snd (query this h a)
                 \<and> map (\<lambda>i. (callee i, seen i)) (calls (fst (query this h2 a2))) =
                     map (\<lambda>i. (callee i, seen i)) (calls (fst (query this h a)))"
      by (auto simp: q q2 unheap_def split: option.splits)
  qed
  from c1 c2 c3 c4 show ?thesis by (intro conjI)
qed

theorem query_partition_witness:
  "map (\<lambda>i. (callee i, targets (seen i)))
     (calls (fst (query (demo [(''cvm'', Bool True)]
        (demo_pool (Returns (Fulfilled 5 (Arr []))) Falsy Falsy)) demo_heap 4)))
     = [(''CVMDatasource'',
         [Target (Some (Str ''cvm'')) ''A'', Target (Some (Str ''cvm'')) ''C''])]
   \<and> snd (query (demo [(''cvm'', Bool True)]
        (demo_pool (Returns (Fulfilled 5 (Arr []))) Falsy Falsy)) demo_heap_cvm 3)
     = snd (query (demo [(''cvm'', Bool True)]
        (demo_pool (Returns (Fulfilled 5 (Arr []))) Falsy Falsy)) demo_heap 4)
   \<and> snd (query (demo [(''cvm'', Bool True)]
        (demo_pool (Returns (Fulfilled 5 (Arr []))) Falsy Falsy)) demo_heap 4)
     = Inr (Fulfilled 5 \<lparr>data = [''cvm:A'', ''cvm:C'']\<rparr>)"
proof -
  let ?d = "demo [(''cvm'', Bool True)] (demo_pool (Returns (Fulfilled 5 (Arr []))) Falsy Falsy)"
  have active: "getSelectedServices ?d = [Str ''cvm'']"
    by code_simp
  have h: "wf_request demo_heap_cvm 3 \<and> read_request demo_heap_cvm 3 = Some demo_request_cvm
      \<and> rest demo_request_cvm = rest demo_request
      \<and> (\<forall>svc \<in> set (getSelectedServices ?d).
            filter (\<lambda>x. target_service x = Some svc) (targets demo_request_cvm) =
            filter (\<lambda>x. target_service x = Some svc) (targets demo_request))"
  proof (intro conjI)
    show "wf_request demo_heap_cvm 3" by code_simp
    show "read_request demo_heap_cvm 3 = Some demo_request_cvm" by code_simp
    show "rest demo_request_cvm = rest demo_request"
      by (simp add: demo_request_def demo_request_cvm_def)
    show "\<forall>svc \<in> set (getSelectedServices ?d).
            filter (\<lambda>x. target_service x = Some svc) (targets demo_request_cvm) =
            filter (\<lambda>x. target_service x = Some svc) (targets demo_request)"
      by (simp add: active demo_request_def demo_request_cvm_def)
  qed
  from query_partition [OF demo_heap_wf demo_heap_reads, of ?d "Str ''cdb''" demo_heap_cvm 3
      demo_request_cvm] h
  have same: "snd (query ?d demo_heap_cvm 3) = snd (query ?d demo_heap 4)"
    by blast
  have c: "map (\<lambda>i. (callee i, targets (seen i))) (calls (fst (query ?d demo_heap 4)))
     = [(''CVMDatasource'',
         [Target (Some (Str ''cvm'')) ''A'', Target (Some (Str ''cvm'')) ''C''])]"
    by code_simp
  have r: "snd (query ?d demo_heap 4) = Inr (Fulfilled 5 \<lparr>data = [''cvm:A'', ''cvm:C'']\<rparr>)"
    by code_simp
  from c same r show ?thesis by (intro conjI)
qed

text \<open>
  C4. For a well-formed request, when the client of every active service with a fragment
  that is not empty is invoked and its promise fulfils with an array (\<open>txs\<close> gives, in the
  order of the active services, the time at which each fulfils and its array), the promise
  of \<open>query\<close> fulfils with the concatenation of the arrays in the order of the active
  services, each array in its own order. The completion times do not occur in the data:
  they only decide when the merged promise fulfils.
\<close>

theorem query_merge_order:
  assumes "wf_request h a" and "read_request h a = Some req"
    and "map (client_answer this req)
           (filter (\<lambda>svc. targets (fragment req svc) \<noteq> []) (getSelectedServices this))
         = map (\<lambda>(t, xs). Some (Returns (Fulfilled t (Arr xs)))) txs"
  shows "snd (query this h a) =
           Inr (Fulfilled (foldr max (map fst txs) 0) \<lparr>data = concat (map snd txs)\<rparr>)
       \<and> map callee (calls (fst (query this h a))) =
           map (client_key this)
             (filter (\<lambda>svc. targets (fragment req svc) \<noteq> []) (getSelectedServices this))"
proof -
  let ?rets = "map (\<lambda>(t, xs). Returns (Fulfilled t (Arr xs))) txs"
  have a: "map (client_answer this req)
           (filter (\<lambda>svc. targets (fragment req svc) \<noteq> []) (getSelectedServices this))
         = map Some ?rets"
    by (simp add: assms(3) split_def)
  have nt: "\<forall>r \<in> set ?rets. \<forall>e. r \<noteq> Throws e" by auto
  from query_sim [OF assms(1,2), of this]
  obtain st r where q: "query this h a =
      (st, case r of Some e \<Rightarrow> Inl e | None \<Rightarrow> Inr (merged (promises st)))"
    and f: "forEach (getSelectedServices this) (branch this req) \<lparr>promises = [], calls = []\<rparr>
           = (unheap st, r)" by blast
  from f forEach_branch_returns [OF a nt, of "\<lparr>promises = [], calls = []\<rparr>"]
  have r: "r = None" and u: "unheap st = \<lparr>promises = returned ?rets,
      calls = map (\<lambda>svc. (client_key this svc, fragment req svc))
                (filter (\<lambda>svc. targets (fragment req svc) \<noteq> []) (getSelectedServices this))\<rparr>"
    by simp_all
  from u have p: "promises st = map (\<lambda>(t, xs). Fulfilled t (Arr xs)) txs"
    by (simp add: unheap_def returned_fulfilled)
  from u have "map (\<lambda>i. (callee i, seen i)) (calls st) =
      map (\<lambda>svc. (client_key this svc, fragment req svc))
                (filter (\<lambda>svc. targets (fragment req svc) \<noteq> []) (getSelectedServices this))"
    by (simp add: unheap_def)
  then have "map fst (map (\<lambda>i. (callee i, seen i)) (calls st)) =
      map fst (map (\<lambda>svc. (client_key this svc, fragment req svc))
                (filter (\<lambda>svc. targets (fragment req svc) \<noteq> []) (getSelectedServices this)))"
    by (rule arg_cong)
  then have c: "map callee (calls st) = map (client_key this)
                (filter (\<lambda>svc. targets (fragment req svc) \<noteq> []) (getSelectedServices this))"
    by (simp add: comp_def)
  show ?thesis
    by (simp add: q r p merged_fulfilled c)
qed

theorem query_merge_order_witness:
  "snd (query (demo demo_all
      (demo_pool (Returns (Fulfilled 5 (Arr []))) (Returns (Fulfilled 2 (Arr [])))
         (Returns (Fulfilled 1 (Arr []))))) demo_heap 4)
     = Inr (Fulfilled 5 \<lparr>data = [''cvm:A'', ''cvm:C'', ''cdb:B'']\<rparr>)"
proof -
  let ?d = "demo demo_all
      (demo_pool (Returns (Fulfilled 5 (Arr []))) (Returns (Fulfilled 2 (Arr [])))
         (Returns (Fulfilled 1 (Arr []))))"
  have h: "map (client_answer ?d demo_request)
           (filter (\<lambda>svc. targets (fragment demo_request svc) \<noteq> []) (getSelectedServices ?d))
         = map (\<lambda>(t, xs). Some (Returns (Fulfilled t (Arr xs))))
             [(5, [''cvm:A'', ''cvm:C'']), (2, [''cdb:B''])]"
    by code_simp
  from query_merge_order [OF demo_heap_wf demo_heap_reads h] show ?thesis
    by simp
qed

text \<open>
  C5. For a well-formed request whose active services with a fragment that is not empty
  all have their client (\<open>rets\<close> is what the clients return, in order). When the first
  client whose \<open>query\<close> throws is the one after \<open>pre\<close>, throwing \<open>e\<close>, then \<open>query\<close>
  throws \<open>e\<close>, and exactly the clients up to and including that one have been invoked,
  each with its fragment. When none throws, all of them have been invoked; if then a
  returned promise rejects, the promise of \<open>query\<close> rejects with the error of a
  rejecting client, the one that rejects first. In both cases the error is the failing
  client's, unchanged, and no merged data is produced: the promise of \<open>query\<close> fulfils
  only when no client has thrown and no returned promise has rejected.
\<close>

theorem query_all_or_nothing:
  assumes "wf_request h a" and "read_request h a = Some req"
    and "map (client_answer this req)
           (filter (\<lambda>svc. targets (fragment req svc) \<noteq> []) (getSelectedServices this))
         = map Some rets"
  shows "(rets = pre @ Throws e # post \<and> (\<forall>r \<in> set pre. \<forall>e'. r \<noteq> Throws e')
            \<longrightarrow> snd (query this h a) = Inl e
              \<and> map (\<lambda>i. (callee i, seen i)) (calls (fst (query this h a))) =
                  map (\<lambda>svc. (client_key this svc, fragment req svc))
                    (take (Suc (length pre))
                       (filter (\<lambda>svc. targets (fragment req svc) \<noteq> [])
                          (getSelectedServices this))))
       \<and> ((\<forall>r \<in> set rets. \<forall>e. r \<noteq> Throws e)
            \<longrightarrow> map (\<lambda>i. (callee i, seen i)) (calls (fst (query this h a))) =
                  map (\<lambda>svc. (client_key this svc, fragment req svc))
                    (filter (\<lambda>svc. targets (fragment req svc) \<noteq> [])
                       (getSelectedServices this)))
       \<and> ((\<forall>r \<in> set rets. \<forall>e. r \<noteq> Throws e) \<and> (\<exists>r \<in> set rets. \<exists>t e. r = Returns (Rejected t e))
            \<longrightarrow> (\<exists>t e. snd (query this h a) = Inr (Rejected t e)
                   \<and> Returns (Rejected t e) \<in> set rets
                   \<and> (\<forall>t' e'. Returns (Rejected t' e') \<in> set rets \<longrightarrow> t \<le> t')))
       \<and> (\<forall>t d. snd (query this h a) = Inr (Fulfilled t d)
            \<longrightarrow> (\<forall>r \<in> set rets. (\<forall>e. r \<noteq> Throws e) \<and> (\<forall>t' e. r \<noteq> Returns (Rejected t' e))))"
proof -
  let ?act = "filter (\<lambda>svc. targets (fragment req svc) \<noteq> []) (getSelectedServices this)"
  let ?f = "\<lambda>svc. (client_key this svc, fragment req svc)"
  let ?init = "\<lparr>promises = [], calls = []\<rparr> :: ('c qres, string \<times> ('a, 'b) request) dispatch"
  from query_sim [OF assms(1,2), of this]
  obtain st r where q: "query this h a =
      (st, case r of Some e \<Rightarrow> Inl e | None \<Rightarrow> Inr (merged (promises st)))"
    and f: "forEach (getSelectedServices this) (branch this req) ?init = (unheap st, r)" by blast
  have thrown: "snd (query this h a) = Inl e
      \<and> map (\<lambda>i. (callee i, seen i)) (calls (fst (query this h a))) =
          map ?f (take (Suc (length pre)) ?act)"
    if "rets = pre @ Throws e # post" and "\<forall>r \<in> set pre. \<forall>e'. r \<noteq> Throws e'"
    for pre e post
  proof -
    from assms(3) that(1)
    have m: "map (client_answer this req) ?act = map Some (pre @ Throws e # post)" by simp
    have "forEach (getSelectedServices this) (branch this req) ?init =
        (\<lparr>promises = returned pre, calls = map ?f (take (Suc (length pre)) ?act)\<rparr>, Some e)"
      by (simp add: forEach_branch_first_throw [OF m that(2)])
    with f have "r = Some e"
      and "unheap st = \<lparr>promises = returned pre, calls = map ?f (take (Suc (length pre)) ?act)\<rparr>"
      by simp_all
    then have "r = Some e"
      and "map (\<lambda>i. (callee i, seen i)) (calls st) = map ?f (take (Suc (length pre)) ?act)"
      by (simp_all add: unheap_def)
    then show ?thesis
      by (simp add: q)
  qed
  have returns: "r = None \<and> promises st = returned rets
      \<and> map (\<lambda>i. (callee i, seen i)) (calls st) = map ?f ?act"
    if "\<forall>r \<in> set rets. \<forall>e. r \<noteq> Throws e"
  proof -
    have "forEach (getSelectedServices this) (branch this req) ?init =
        (\<lparr>promises = returned rets, calls = map ?f ?act\<rparr>, None)"
      by (simp add: forEach_branch_returns [OF assms(3) that])
    with f have "r = None" and "unheap st = \<lparr>promises = returned rets, calls = map ?f ?act\<rparr>"
      by simp_all
    then show ?thesis by (simp add: unheap_def)
  qed
  have c1: "rets = pre @ Throws e # post \<and> (\<forall>r \<in> set pre. \<forall>e'. r \<noteq> Throws e')
            \<longrightarrow> snd (query this h a) = Inl e
              \<and> map (\<lambda>i. (callee i, seen i)) (calls (fst (query this h a))) =
                  map ?f (take (Suc (length pre)) ?act)"
    using thrown by blast
  have c2: "(\<forall>r \<in> set rets. \<forall>e. r \<noteq> Throws e)
            \<longrightarrow> map (\<lambda>i. (callee i, seen i)) (calls (fst (query this h a))) = map ?f ?act"
    using returns by (simp add: q)
  have rej: "\<exists>t e. snd (query this h a) = Inr (Rejected t e)
                   \<and> Returns (Rejected t e) \<in> set rets
                   \<and> (\<forall>t' e'. Returns (Rejected t' e') \<in> set rets \<longrightarrow> t \<le> t')"
    if nt: "\<forall>r \<in> set rets. \<forall>e. r \<noteq> Throws e"
      and ex: "\<exists>r \<in> set rets. \<exists>t e. r = Returns (Rejected t e)"
  proof -
    from returns [OF nt] have r: "r = None" and p: "promises st = returned rets" by simp_all
    from ex obtain t0 e0 where "Returns (Rejected t0 e0) \<in> set rets" by blast
    then have "Rejected t0 e0 \<in> set (returned rets)" by (simp add: returned_mem)
    from merged_rejected [OF this]
    obtain t e where "merged (returned rets) = Rejected t e"
      and "Rejected t e \<in> set (returned rets)"
      and "\<forall>t' e'. Rejected t' e' \<in> set (returned rets) \<longrightarrow> t \<le> t'" by blast
    then show ?thesis
      by (auto simp: q r p returned_mem)
  qed
  have c3: "(\<forall>r \<in> set rets. \<forall>e. r \<noteq> Throws e) \<and> (\<exists>r \<in> set rets. \<exists>t e. r = Returns (Rejected t e))
            \<longrightarrow> (\<exists>t e. snd (query this h a) = Inr (Rejected t e)
                   \<and> Returns (Rejected t e) \<in> set rets
                   \<and> (\<forall>t' e'. Returns (Rejected t' e') \<in> set rets \<longrightarrow> t \<le> t'))"
    using rej by blast
  have c4: "\<forall>t d. snd (query this h a) = Inr (Fulfilled t d)
            \<longrightarrow> (\<forall>r \<in> set rets. (\<forall>e. r \<noteq> Throws e) \<and> (\<forall>t' e. r \<noteq> Returns (Rejected t' e)))"
  proof (intro allI impI)
    fix t d
    assume ok: "snd (query this h a) = Inr (Fulfilled t d)"
    have nt: "\<forall>r \<in> set rets. \<forall>e. r \<noteq> Throws e"
    proof (rule ccontr)
      assume "\<not> (\<forall>r \<in> set rets. \<forall>e. r \<noteq> Throws e)"
      then have "\<exists>r \<in> set rets. \<exists>e. r = Throws e" by blast
      then obtain pre r' post where "rets = pre @ r' # post" and "\<exists>e. r' = Throws e"
        and "\<forall>r'' \<in> set pre. \<not> (\<exists>e. r'' = Throws e)"
        by (auto dest!: split_list_first_prop)
      with thrown [of pre _ post] ok show False by auto
    qed
    have "\<forall>r \<in> set rets. \<forall>t' e. r \<noteq> Returns (Rejected t' e)"
    proof (rule ccontr)
      assume "\<not> (\<forall>r \<in> set rets. \<forall>t' e. r \<noteq> Returns (Rejected t' e))"
      then have "\<exists>r \<in> set rets. \<exists>t e. r = Returns (Rejected t e)" by blast
      from rej [OF nt this] ok show False by auto
    qed
    with nt show "\<forall>r \<in> set rets. (\<forall>e. r \<noteq> Throws e) \<and> (\<forall>t' e. r \<noteq> Returns (Rejected t' e))"
      by blast
  qed
  from c1 c2 c3 c4 show ?thesis by (intro conjI)
qed

theorem query_all_or_nothing_witness:
  "snd (query (demo demo_all
      (demo_pool (Returns (Rejected 5 (ClientError ''cvm down''))) (Returns (Fulfilled 2 (Arr [])))
         (Returns (Fulfilled 1 (Arr []))))) demo_heap 4)
     = Inr (Rejected 5 (ClientError ''cvm down''))
   \<and> snd (query (demo demo_all
      (demo_pool (Throws (ClientError ''cvm broke'')) (Throws (ClientError ''cdb broke''))
         (Returns (Fulfilled 1 (Arr []))))) demo_heap 4)
     = Inl (ClientError ''cvm broke'')
   \<and> map callee (calls (fst (query (demo demo_all
      (demo_pool (Throws (ClientError ''cvm broke'')) (Throws (ClientError ''cdb broke''))
         (Returns (Fulfilled 1 (Arr []))))) demo_heap 4)))
     = [''CVMDatasource'']"
proof -
  let ?d1 = "demo demo_all
      (demo_pool (Returns (Rejected 5 (ClientError ''cvm down''))) (Returns (Fulfilled 2 (Arr [])))
         (Returns (Fulfilled 1 (Arr []))))"
  let ?d2 = "demo demo_all
      (demo_pool (Throws (ClientError ''cvm broke'')) (Throws (ClientError ''cdb broke''))
         (Returns (Fulfilled 1 (Arr []))))"
  let ?r1 = "[Returns (Rejected 5 (ClientError ''cvm down'')),
              Returns (Fulfilled 2 (Arr [''cdb:B'']))]"
  let ?r2 = "[Throws (ClientError ''cvm broke''), Throws (ClientError ''cdb broke'')]"
  let ?act2 = "filter (\<lambda>svc. targets (fragment demo_request svc) \<noteq> []) (getSelectedServices ?d2)"
  have h1: "map (client_answer ?d1 demo_request)
           (filter (\<lambda>svc. targets (fragment demo_request svc) \<noteq> []) (getSelectedServices ?d1))
         = map Some ?r1"
    by code_simp
  have h2: "map (client_answer ?d2 demo_request) ?act2 = map Some ?r2"
    by code_simp
  have nx1: "(\<forall>r \<in> set ?r1. \<forall>e. r \<noteq> Throws e)
      \<and> (\<exists>r \<in> set ?r1. \<exists>t e. r = Returns (Rejected t e))"
    by simp
  note t1 = query_all_or_nothing [OF demo_heap_wf demo_heap_reads h1,
      of "[]" "ClientError ''x''" "[]"]
  from t1 [THEN conjunct2, THEN conjunct2, THEN conjunct1, THEN mp, OF nx1]
  have a: "snd (query ?d1 demo_heap 4) = Inr (Rejected 5 (ClientError ''cvm down''))"
    by auto
  have p2: "?r2 = [] @ Throws (ClientError ''cvm broke'') # [Throws (ClientError ''cdb broke'')]
      \<and> (\<forall>r \<in> set []. \<forall>e'. r \<noteq> (Throws e' :: string qres ret))"
    by simp
  note t2 = query_all_or_nothing [OF demo_heap_wf demo_heap_reads h2,
      of "[]" "ClientError ''cvm broke''" "[Throws (ClientError ''cdb broke'')]"]
  note t2' = t2 [THEN conjunct1, THEN mp, OF p2]
  from t2' have b: "snd (query ?d2 demo_heap 4) = Inl (ClientError ''cvm broke'')"
    by (rule conjunct1)
  from t2' have l: "map (\<lambda>i. (callee i, seen i)) (calls (fst (query ?d2 demo_heap 4))) =
        map (\<lambda>svc. (client_key ?d2 svc, fragment demo_request svc))
          (take (Suc (length ([] :: string qres ret list))) ?act2)"
    by (rule conjunct2)
  have k: "map (\<lambda>svc. (client_key ?d2 svc, fragment demo_request svc))
          (take (Suc (length ([] :: string qres ret list))) ?act2) =
        [(''CVMDatasource'', fragment demo_request (Str ''cvm''))]"
    by code_simp
  have "map fst (map (\<lambda>i. (callee i, seen i)) (calls (fst (query ?d2 demo_heap 4)))) =
      map fst [(''CVMDatasource'', fragment demo_request (Str ''cvm''))]"
    by (simp only: l k)
  then have c: "map callee (calls (fst (query ?d2 demo_heap 4))) = [''CVMDatasource'']"
    by (simp add: comp_def)
  from a b c show ?thesis by (intro conjI)
qed

text \<open>
  C7. When no service is active, or when the request is well formed and no active service
  has a target of its own in it, no client is invoked and \<open>query\<close> returns a promise that
  is already fulfilled with the empty data.
\<close>

theorem query_no_invocation:
  assumes "getSelectedServices this = []
         \<or> (wf_request h a \<and> read_request h a = Some req
             \<and> (\<forall>svc \<in> set (getSelectedServices this).
                   \<forall>x \<in> set (targets req). target_service x \<noteq> Some svc))"
  shows "snd (query this h a) = Inr (Fulfilled 0 \<lparr>data = []\<rparr>)
       \<and> calls (fst (query this h a)) = []"
  using assms
proof
  assume "getSelectedServices this = []"
  then show ?thesis
    by (simp add: query_def merged_def promise_resolve_def)
next
  assume a: "wf_request h a \<and> read_request h a = Some req
             \<and> (\<forall>svc \<in> set (getSelectedServices this).
                   \<forall>x \<in> set (targets req). target_service x \<noteq> Some svc)"
  then have none: "filter (\<lambda>svc. targets (fragment req svc) \<noteq> []) (getSelectedServices this) = []"
    by (auto simp: fragment_def filter_empty_conv)
  from a have wf: "wf_request h a" and rd: "read_request h a = Some req" by simp_all
  from query_sim [OF wf rd, of this]
  obtain st r where q: "query this h a =
      (st, case r of Some e \<Rightarrow> Inl e | None \<Rightarrow> Inr (merged (promises st)))"
    and f: "forEach (getSelectedServices this) (branch this req) \<lparr>promises = [], calls = []\<rparr>
           = (unheap st, r)" by blast
  have "map (client_answer this req)
      (filter (\<lambda>svc. targets (fragment req svc) \<noteq> []) (getSelectedServices this)) = map Some []"
    by (simp add: none)
  from f forEach_branch_returns [OF this, of "\<lparr>promises = [], calls = []\<rparr>"] none
  have "r = None" and "promises st = []" and "calls st = []"
    by (simp_all add: unheap_def)
  then show ?thesis
    by (simp add: q merged_def promise_resolve_def)
qed

theorem query_no_invocation_witness:
  "snd (query (demo [(''clb'', Bool True)]
      (demo_pool (Throws (ClientError ''cvm'')) (Throws (ClientError ''cdb''))
         (Throws (ClientError ''clb'')))) demo_heap 4)
     = Inr (Fulfilled 0 \<lparr>data = []\<rparr>)
   \<and> calls (fst (query (demo [(''clb'', Bool True)]
      (demo_pool (Throws (ClientError ''cvm'')) (Throws (ClientError ''cdb''))
         (Throws (ClientError ''clb'')))) demo_heap 4)) = []"
proof -
  let ?d = "demo [(''clb'', Bool True)]
      (demo_pool (Throws (ClientError ''cvm'')) (Throws (ClientError ''cdb''))
         (Throws (ClientError ''clb'')))"
  have active: "getSelectedServices ?d = [Str ''clb'']"
    by code_simp
  have "\<forall>svc \<in> set (getSelectedServices ?d).
          \<forall>x \<in> set (targets demo_request). target_service x \<noteq> Some svc"
    by (simp add: active demo_request_def)
  with demo_heap_wf demo_heap_reads
  have h: "getSelectedServices ?d = []
         \<or> (wf_request demo_heap 4 \<and> read_request demo_heap 4 = Some demo_request
             \<and> (\<forall>svc \<in> set (getSelectedServices ?d).
                   \<forall>x \<in> set (targets demo_request). target_service x \<noteq> Some svc))"
    by blast
  from query_no_invocation [OF h] show ?thesis .
qed

text \<open>
  C10. For a well-formed request, \<open>query\<close> leaves every object that existed before the
  call as it was (the heap only grows), so the caller's request reads the same after the
  call, its full targets sequence included. Every request object handed to a client is
  a deep clone: all that can be reached from it was allocated during the call and none of
  it can be reached from the caller's request; at the end of the dispatch it still reads
  as the fragment the client was given; and the objects of two different invocations are
  disjoint.
\<close>

theorem query_leaves_request_unchanged:
  assumes "wf_request h a" and "read_request h a = Some req"
  shows "take (length h) (heap (fst (query this h a))) = h
       \<and> read_request (heap (fst (query this h a))) a = Some req
       \<and> (\<forall>i \<in> set (calls (fst (query this h a))).
             (\<forall>x \<in> set (reachable (heap (fst (query this h a))) (arg i)). length h \<le> x)
             \<and> set (reachable (heap (fst (query this h a))) (arg i))
                 \<inter> set (reachable (heap (fst (query this h a))) a) = {}
             \<and> read_request (heap (fst (query this h a))) (arg i) = Some (seen i))
       \<and> (\<forall>j k. j < k \<and> k < length (calls (fst (query this h a)))
             \<longrightarrow> set (reachable (heap (fst (query this h a))) (arg (calls (fst (query this h a)) ! j)))
                 \<inter> set (reachable (heap (fst (query this h a))) (arg (calls (fst (query this h a)) ! k)))
                 = {})"
proof -
  from query_sim [OF assms, of this]
  obtain st r ext where q: "query this h a =
      (st, case r of Some e \<Rightarrow> Inl e | None \<Rightarrow> Inr (merged (promises st)))"
    and H: "heap st = h @ ext"
    and cs: "clones_separate (length h) (heap st) (calls st)" by blast
  note orig = wf_request_reachable [OF assms(1)]
  have ra: "reachable (heap st) a = reachable h a"
    unfolding H by (rule reachable_append [OF orig])
  have c1: "take (length h) (heap st) = h" by (simp add: H)
  have c2: "read_request (heap st) a = Some req"
    unfolding H using read_request_append [OF orig] assms(2) by simp
  have c3: "\<forall>i \<in> set (calls st).
             (\<forall>x \<in> set (reachable (heap st) (arg i)). length h \<le> x)
             \<and> set (reachable (heap st) (arg i)) \<inter> set (reachable (heap st) a) = {}
             \<and> read_request (heap st) (arg i) = Some (seen i)"
  proof
    fix i
    assume "i \<in> set (calls st)"
    with cs have fr: "\<forall>x \<in> set (reachable (heap st) (arg i)). length h \<le> x"
      and rr: "read_request (heap st) (arg i) = Some (seen i)"
      by (auto simp: clones_separate_def)
    from fr orig have "set (reachable (heap st) (arg i)) \<inter> set (reachable h a) = {}"
      by fastforce
    with fr rr show "(\<forall>x \<in> set (reachable (heap st) (arg i)). length h \<le> x)
             \<and> set (reachable (heap st) (arg i)) \<inter> set (reachable (heap st) a) = {}
             \<and> read_request (heap st) (arg i) = Some (seen i)"
      by (simp add: ra)
  qed
  have c4: "\<forall>j k. j < k \<and> k < length (calls st)
             \<longrightarrow> set (reachable (heap st) (arg (calls st ! j)))
                 \<inter> set (reachable (heap st) (arg (calls st ! k))) = {}"
  proof (intro allI impI)
    fix j k
    assume jk: "j < k \<and> k < length (calls st)"
    from cs have "sorted_wrt (\<lambda>I J. \<forall>x \<in> set I. \<forall>y \<in> set J. x < y)
        (map (\<lambda>i. reachable (heap st) (arg i)) (calls st))"
      by (simp add: clones_separate_def)
    with jk have "\<forall>x \<in> set (reachable (heap st) (arg (calls st ! j))).
        \<forall>y \<in> set (reachable (heap st) (arg (calls st ! k))). x < y"
      by (auto simp: sorted_wrt_iff_nth_less)
    then show "set (reachable (heap st) (arg (calls st ! j)))
                 \<inter> set (reachable (heap st) (arg (calls st ! k))) = {}"
      by fastforce
  qed
  from c1 c2 c3 c4 show ?thesis
    by (simp add: q)
qed

theorem query_leaves_request_unchanged_witness:
  "take 5 (heap (fst (query (demo demo_all
      (demo_pool (Returns (Fulfilled 5 (Arr []))) (Returns (Fulfilled 2 (Arr [])))
         (Returns (Fulfilled 1 (Arr []))))) demo_heap 4))) = demo_heap
   \<and> read_request (heap (fst (query (demo demo_all
      (demo_pool (Returns (Fulfilled 5 (Arr []))) (Returns (Fulfilled 2 (Arr [])))
         (Returns (Fulfilled 1 (Arr []))))) demo_heap 4))) 4 = Some demo_request
   \<and> map (\<lambda>i. reachable (heap (fst (query (demo demo_all
      (demo_pool (Returns (Fulfilled 5 (Arr []))) (Returns (Fulfilled 2 (Arr [])))
         (Returns (Fulfilled 1 (Arr []))))) demo_heap 4))) (arg i))
       (calls (fst (query (demo demo_all
      (demo_pool (Returns (Fulfilled 5 (Arr []))) (Returns (Fulfilled 2 (Arr [])))
         (Returns (Fulfilled 1 (Arr []))))) demo_heap 4)))
     = [[9, 10, 5, 7], [15, 16, 12]]"
proof -
  let ?d = "demo demo_all
      (demo_pool (Returns (Fulfilled 5 (Arr []))) (Returns (Fulfilled 2 (Arr [])))
         (Returns (Fulfilled 1 (Arr []))))"
  have n: "length demo_heap = 5" by (simp add: demo_heap_def)
  from query_leaves_request_unchanged [OF demo_heap_wf demo_heap_reads, of ?d]
  have a: "take 5 (heap (fst (query ?d demo_heap 4))) = demo_heap"
    and b: "read_request (heap (fst (query ?d demo_heap 4))) 4 = Some demo_request"
    by (simp_all add: n)
  have c: "map (\<lambda>i. reachable (heap (fst (query ?d demo_heap 4))) (arg i))
       (calls (fst (query ?d demo_heap 4))) = [[9, 10, 5, 7], [15, 16, 12]]"
    by code_simp
  from a b c show ?thesis by (intro conjI)
qed

end
